theory Spec2Isabelle
  imports Main "HOL-Library.Sublist"
begin

section \<open>Text and the string operations the scripts use\<close>

text \<open>
  The two scripts \<^verbatim>\<open>bin/enrich_bib.py\<close> and \<^verbatim>\<open>bin/fetch_thumbnails.py\<close> work on the
  bibliography as one Python \<^verbatim>\<open>str\<close>. Here a text is a \<^typ>\<open>string\<close>, one \<^typ>\<open>char\<close> per
  character: the texts covered are those whose code points lie below 256, and a
  \<^typ>\<open>char\<close> stands for the character with its code. The character classes are Python's
  classes for \<^verbatim>\<open>str\<close> on these codes.

  White space, the same for \<^verbatim>\<open>str.strip\<close>, \<^verbatim>\<open>str.rstrip\<close>, \<^verbatim>\<open>str.isspace\<close> and the pattern
  \<^verbatim>\<open>\s\<close>: the codes 9 to 13, 28 to 32, 133 (next line) and 160 (no-break space).
\<close>

abbreviation nl :: char where
  "nl \<equiv> CHR 0x0A"

definition is_space :: "char \<Rightarrow> bool" where
  "is_space c = (let n = (of_char c :: nat) in
     (9 \<le> n \<and> n \<le> 13) \<or> (28 \<le> n \<and> n \<le> 32) \<or> n = 133 \<or> n = 160)"

text \<open>
  The pattern \<^verbatim>\<open>\w\<close>: the underscore and every character that \<^verbatim>\<open>str.isalnum\<close> accepts.
  Below 128 these are the digits and the letters; from 128 on, the codes 170, 178, 179,
  181, 185, 186, 188 to 190, 192 to 214, 216 to 246 and 248 to 255.
\<close>

definition is_word :: "char \<Rightarrow> bool" where
  "is_word c = (let n = (of_char c :: nat) in
     (48 \<le> n \<and> n \<le> 57) \<or> (65 \<le> n \<and> n \<le> 90) \<or> n = 95 \<or> (97 \<le> n \<and> n \<le> 122)
     \<or> n = 170 \<or> n = 178 \<or> n = 179 \<or> n = 181 \<or> n = 185 \<or> n = 186
     \<or> (188 \<le> n \<and> n \<le> 190) \<or> (192 \<le> n \<and> n \<le> 214) \<or> (216 \<le> n \<and> n \<le> 246)
     \<or> 248 \<le> n)"

text \<open>\<^verbatim>\<open>s.rstrip()\<close>, \<^verbatim>\<open>s.strip()\<close> and \<^verbatim>\<open>s.rstrip("\n")\<close>.\<close>

definition py_rstrip :: "string \<Rightarrow> string" where
  "py_rstrip s = rev (dropWhile is_space (rev s))"

definition py_strip :: "string \<Rightarrow> string" where
  "py_strip s = dropWhile is_space (py_rstrip s)"

definition py_rstrip_nl :: "string \<Rightarrow> string" where
  "py_rstrip_nl s = rev (dropWhile (\<lambda>c. c = nl) (rev s))"

text \<open>
  \<^verbatim>\<open>s.rfind(sub)\<close>: the highest index at which \<^verbatim>\<open>sub\<close> starts in \<^verbatim>\<open>s\<close>. Python answers
  \<^verbatim>\<open>-1\<close> when there is none; the model answers \<^term>\<open>None\<close>.
\<close>

fun py_rfind :: "string \<Rightarrow> string \<Rightarrow> nat option" where
  "py_rfind [] sub = (if sub = [] then Some 0 else None)"
| "py_rfind (c # cs) sub =
     (case py_rfind cs sub of
        Some i \<Rightarrow> Some (Suc i)
      | None \<Rightarrow> if prefix sub (c # cs) then Some 0 else None)"

text \<open>\<^verbatim>\<open>sep.join(lines)\<close>.\<close>

fun py_join :: "string \<Rightarrow> string list \<Rightarrow> string" where
  "py_join sep [] = []"
| "py_join sep [l] = l"
| "py_join sep (l # m # ls) = l @ sep @ py_join sep (m # ls)"

text \<open>The format spec \<^verbatim>\<open>{name:<12}\<close>: left-aligned, filled with spaces up to the width.\<close>

definition py_ljust :: "nat \<Rightarrow> string \<Rightarrow> string" where
  "py_ljust w s = s @ replicate (w - length s) CHR '' ''"

section \<open>The field merger\<close>

text \<open>The f-string \<^verbatim>\<open>f"  {name:<12}= {{{value}}},"\<close> of both scripts.\<close>

definition field_line :: "string \<Rightarrow> string \<Rightarrow> string" where
  "field_line name v = ''  '' @ py_ljust 12 name @ ''= {'' @ v @ ''},''"

text \<open>
  \<^verbatim>\<open>inject_fields(raw, new_fields)\<close> of \<^verbatim>\<open>enrich_bib.py\<close>. The dict \<^verbatim>\<open>new_fields\<close> is
  the list of its items in insertion order. \<^verbatim>\<open>before.rfind("\n") + 1\<close> is 0 when the
  newline is missing, since Python's \<^verbatim>\<open>rfind\<close> answers \<open>-1\<close> there. The source's
  variable \<^verbatim>\<open>before\<close> is \<open>before_text\<close> here.
\<close>

definition inject_fields :: "string \<Rightarrow> (string \<times> string) list \<Rightarrow> string" where
  "inject_fields raw new_fields =
     (let lines = map (\<lambda>(name, v). field_line name v) new_fields;
          insertion = py_join [nl] lines @ [nl]
      in case py_rfind raw [nl, CHR ''}''] of
           None \<Rightarrow> raw
         | Some idx \<Rightarrow>
             (let before_text = take idx raw;
                  last_line_end1 = (case py_rfind before_text [nl] of None \<Rightarrow> 0 | Some j \<Rightarrow> j + 1);
                  last_line = drop last_line_end1 before_text;
                  before' =
                    (if py_strip last_line \<noteq> [] \<and> \<not> suffix '','' (py_rstrip last_line)
                     then py_rstrip_nl (take last_line_end1 before_text @ py_rstrip last_line @ '','' @ [nl])
                     else before_text)
              in before' @ [nl] @ insertion @ drop idx raw))"

text \<open>\<^verbatim>\<open>inject_field(raw, name, value)\<close> of \<^verbatim>\<open>fetch_thumbnails.py\<close>.\<close>

definition inject_field :: "string \<Rightarrow> string \<Rightarrow> string \<Rightarrow> string" where
  "inject_field raw name v =
     (let line = field_line name v
      in case py_rfind raw [nl, CHR ''}''] of
           None \<Rightarrow> raw
         | Some idx \<Rightarrow>
             (let before_text = take idx raw;
                  last_nl1 = (case py_rfind before_text [nl] of None \<Rightarrow> 0 | Some j \<Rightarrow> j + 1);
                  last_line = drop last_nl1 before_text;
                  before' =
                    (if py_strip last_line \<noteq> [] \<and> \<not> suffix '','' (py_rstrip last_line)
                     then take last_nl1 before_text @ py_rstrip last_line @ '',''
                     else before_text)
              in before' @ [nl] @ line @ [nl] @ drop idx raw))"

section \<open>The record scanner\<close>

text \<open>
  Both scripts scan with the same three patterns. Each pattern is matched here the way
  Python's backtracking matcher decides it; the classes \<^verbatim>\<open>\w\<close>, \<^verbatim>\<open>\s\<close> and the literal
  that follows them are pairwise disjoint, so a greedy run never has to give a
  character back.

  \<^verbatim>\<open>@\w+\s*\{\<close>, the common head of \<^verbatim>\<open>ENTRY_RE\<close> and \<^verbatim>\<open>KEY_RE\<close>: the length of its
  match at the start of the text.
\<close>

definition match_header :: "string \<Rightarrow> nat option" where
  "match_header s =
     (case s of
        [] \<Rightarrow> None
      | c # r \<Rightarrow>
          if c \<noteq> CHR ''@'' then None
          else let w = takeWhile is_word r;
                   r1 = dropWhile is_word r;
                   sp = takeWhile is_space r1;
                   r2 = dropWhile is_space r1
               in if w = [] then None
                  else (case r2 of
                          [] \<Rightarrow> None
                        | d # _ \<Rightarrow> if d = CHR ''{'' then Some (1 + length w + length sp + 1) else None))"

text \<open>
  \<^verbatim>\<open>[^@]*?\n\}\<close>: the lazy run stops at the first newline that a closing brace follows,
  and fails when an \<^verbatim>\<open>@\<close> or the end of the text comes first. The result is the length
  of the lazy run.
\<close>

fun find_close :: "string \<Rightarrow> nat option" where
  "find_close [] = None"
| "find_close (c # cs) =
     (if prefix [nl, CHR ''}''] (c # cs) then Some 0
      else if c = CHR ''@'' then None
      else map_option Suc (find_close cs))"

text \<open>\<^verbatim>\<open>ENTRY_RE = (@\w+\s*\{[^@]*?\n\})\<close> at the start of the text: the length of the match.\<close>

definition match_entry :: "string \<Rightarrow> nat option" where
  "match_entry s =
     (case match_header s of
        None \<Rightarrow> None
      | Some h \<Rightarrow> (case find_close (drop h s) of None \<Rightarrow> None | Some n \<Rightarrow> Some (h + n + 2)))"

lemma match_entry_pos: "match_entry s = Some n \<Longrightarrow> 0 < n"
  by (auto simp: match_entry_def split: option.splits)

text \<open>
  \<^verbatim>\<open>ENTRY_RE.finditer(text)\<close>: the spans of the matches from left to right; the search
  goes on where a match ended, and one character further where none started.
\<close>

function finditer_entries :: "nat \<Rightarrow> string \<Rightarrow> (nat \<times> nat) list" where
  "finditer_entries pos [] = []"
| "finditer_entries pos (c # cs) =
     (case match_entry (c # cs) of
        Some n \<Rightarrow> (pos, pos + n) # finditer_entries (pos + n) (drop n (c # cs))
      | None \<Rightarrow> finditer_entries (pos + 1) cs)"
  by pat_completeness auto
termination
  by (relation "measure (\<lambda>(pos, s). length s)") (auto dest: match_entry_pos)

text \<open>
  \<^verbatim>\<open>(\S+?),\<close> of \<^verbatim>\<open>KEY_RE\<close>: at least one character that is not white space, as few
  as possible, then a comma. The result is the group.
\<close>

fun match_key_body :: "string \<Rightarrow> string option" where
  "match_key_body [] = None"
| "match_key_body (c # cs) =
     (if is_space c then None
      else (case cs of
              [] \<Rightarrow> None
            | d # _ \<Rightarrow> if d = CHR '','' then Some [c] else map_option ((#) c) (match_key_body cs)))"

definition match_key :: "string \<Rightarrow> string option" where
  "match_key s = (case match_header s of None \<Rightarrow> None | Some h \<Rightarrow> match_key_body (drop h s))"

text \<open>\<^verbatim>\<open>KEY_RE.search(raw)\<close>: the group of the leftmost match, \<^term>\<open>None\<close> for Python's \<^verbatim>\<open>None\<close>.\<close>

fun key_search :: "string \<Rightarrow> string option" where
  "key_search [] = None"
| "key_search (c # cs) = (case match_key (c # cs) of Some k \<Rightarrow> Some k | None \<Rightarrow> key_search cs)"

text \<open>
  \<^verbatim>\<open>^\s{2}(\w+)\s*=\s*\{([^}]*)\}\<close> of \<^verbatim>\<open>FIELD_RE\<close>, tried at the start of a line: the
  name, the value and the length of the match.
\<close>

definition match_field :: "string \<Rightarrow> (string \<times> string \<times> nat) option" where
  "match_field s =
     (case s of
        a # b # r \<Rightarrow>
          if is_space a \<and> is_space b then
            (let w = takeWhile is_word r;
                 r2 = dropWhile is_space (dropWhile is_word r)
             in if w = [] then None
                else (case r2 of
                        [] \<Rightarrow> None
                      | e # r3 \<Rightarrow>
                          if e \<noteq> CHR ''='' then None
                          else (case dropWhile is_space r3 of
                                  [] \<Rightarrow> None
                                | ob # r5 \<Rightarrow>
                                    if ob \<noteq> CHR ''{'' then None
                                    else (case dropWhile (\<lambda>c. c \<noteq> CHR ''}'') r5 of
                                            [] \<Rightarrow> None
                                          | _ # r6 \<Rightarrow>
                                              Some (w, takeWhile (\<lambda>c. c \<noteq> CHR ''}'') r5,
                                                    length s - length r6)))))
          else None
      | _ \<Rightarrow> None)"

lemma match_field_pos: "match_field s = Some (f, v, n) \<Longrightarrow> 0 < n"
proof -
  assume m: "match_field s = Some (f, v, n)"
  then obtain a b r where s: "s = a # b # r"
    by (cases s rule: list.exhaust [case_product list.exhaust])
      (auto simp: match_field_def split: list.splits)
  have le: "length (dropWhile P xs) \<le> length xs" for P and xs :: string
    by (rule length_dropWhile_le)
  from m s obtain r3 r5 r6 e ob c where
    "dropWhile is_space (dropWhile is_word r) = e # r3"
    "dropWhile is_space r3 = ob # r5"
    "dropWhile (\<lambda>c. c \<noteq> CHR ''}'') r5 = c # r6"
    "n = length s - length r6"
    by (auto simp: match_field_def Let_def split: if_splits list.splits)
  then have "length r6 < length r5" "length r5 < length r3" "length r3 < length r"
    using le [of "\<lambda>c. c \<noteq> CHR ''}''" r5] le [of is_space r3]
      le [of is_space "dropWhile is_word r"] le [of is_word r]
    by simp_all
  with s \<open>n = length s - length r6\<close> show ?thesis by simp
qed

text \<open>
  \<^verbatim>\<open>FIELD_RE.findall(raw)\<close> under \<^verbatim>\<open>re.MULTILINE\<close>: \<^verbatim>\<open>^\<close> holds at the start of the text
  and after each newline, which the flag \<open>bol\<close> carries. A match ends in a brace, so
  the position after it is no line start.
\<close>

function findall_fields :: "bool \<Rightarrow> string \<Rightarrow> (string \<times> string) list" where
  "findall_fields bol [] = []"
| "findall_fields bol (c # cs) =
     (case (if bol then match_field (c # cs) else None) of
        Some (f, v, n) \<Rightarrow> (f, v) # findall_fields False (drop n (c # cs))
      | None \<Rightarrow> findall_fields (c = nl) cs)"
  by pat_completeness auto
termination
  by (relation "measure (\<lambda>(bol, s). length s)") (auto split: if_splits dest: match_field_pos)

text \<open>
  \<^verbatim>\<open>str.lower()\<close>: below 256 the capital letters are the codes 65 to 90, 192 to 214 and
  216 to 222, and the small letter of each is 32 further.
\<close>

definition py_lower :: "string \<Rightarrow> string" where
  "py_lower s = map (\<lambda>c. let n = (of_char c :: nat) in
                        if (65 \<le> n \<and> n \<le> 90) \<or> (192 \<le> n \<and> n \<le> 214) \<or> (216 \<le> n \<and> n \<le> 222)
                        then char_of (n + 32) else c) s"

text \<open>
  The dict comprehension \<^verbatim>\<open>{f.lower(): v.strip() for f, v in FIELD_RE.findall(raw)}\<close>:
  a later pair replaces an earlier one with the same name.
\<close>

definition fields_of :: "string \<Rightarrow> (string \<rightharpoonup> string)" where
  "fields_of raw = map_of (rev (map (\<lambda>(f, v). (py_lower f, py_strip v)) (findall_fields True raw)))"

text \<open>
  An entry, the dict \<^verbatim>\<open>{"key": ..., "raw": ..., "fields": ..., "span": ...}\<close>; the prefix
  keeps the field names apart from the variables of the same names.
\<close>

record entry =
  e_key :: string
  e_raw :: string
  e_fields :: "string \<rightharpoonup> string"
  e_span :: "nat \<times> nat"

text \<open>
  \<^verbatim>\<open>parse_entries\<close> of \<^verbatim>\<open>enrich_bib.py\<close>: a record whose key is not found gets the key
  \<^verbatim>\<open>"unknown"\<close>.
\<close>

definition parse_entries :: "string \<Rightarrow> entry list" where
  "parse_entries text =
     map (\<lambda>(s, e).
            let raw = take (e - s) (drop s text)
            in \<lparr>e_key = (case key_search raw of Some k \<Rightarrow> k | None \<Rightarrow> ''unknown''),
                e_raw = raw, e_fields = fields_of raw, e_span = (s, e)\<rparr>)
         (finditer_entries 0 text)"

text \<open>
  \<^verbatim>\<open>parse_entries\<close> of \<^verbatim>\<open>fetch_thumbnails.py\<close> reads \<^verbatim>\<open>KEY_RE.search(raw).group(1)\<close>
  with no test of the search result: on \<^verbatim>\<open>None\<close> Python raises \<^verbatim>\<open>AttributeError\<close>, and
  the loop ends there.
\<close>

datatype py_error = AttributeError

fun build_entries :: "string \<Rightarrow> (nat \<times> nat) list \<Rightarrow> py_error + entry list" where
  "build_entries text [] = Inr []"
| "build_entries text ((s, e) # ms) =
     (let raw = take (e - s) (drop s text)
      in case key_search raw of
           None \<Rightarrow> Inl AttributeError
         | Some k \<Rightarrow>
             (case build_entries text ms of
                Inl err \<Rightarrow> Inl err
              | Inr es \<Rightarrow>
                  Inr (\<lparr>e_key = k, e_raw = raw, e_fields = fields_of raw, e_span = (s, e)\<rparr> # es)))"

definition parse_entries_thumb :: "string \<Rightarrow> py_error + entry list" where
  "parse_entries_thumb text = build_entries text (finditer_entries 0 text)"

section \<open>The patch applier\<close>

text \<open>
  The last loop of both \<^verbatim>\<open>main\<close> functions:
  \<^verbatim>\<open>for (start, end), new_raw in sorted(replacements, key=lambda x: -x[0][0]):
      new_text = new_text[:start] + new_raw + new_text[end:]\<close>
  Python's \<^verbatim>\<open>sorted\<close> is stable, as \<^const>\<open>sort_key\<close> is.
\<close>

type_synonym replacement = "(nat \<times> nat) \<times> string"

definition splice :: "string \<Rightarrow> replacement \<Rightarrow> string" where
  "splice new_text r = (case r of ((start, stop), new_raw) \<Rightarrow> take start new_text @ new_raw @ drop stop new_text)"

definition apply_replacements :: "string \<Rightarrow> replacement list \<Rightarrow> string" where
  "apply_replacements text replacements =
     foldl splice text (sort_key (\<lambda>x. - int (fst (fst x))) replacements)"

section \<open>The enricher\<close>

text \<open>
  The two lookups of \<^verbatim>\<open>enrich_bib.py\<close> go to the network. They are parameters of the
  model: each takes the state \<open>'w\<close> of the outside world and returns its answer with the
  new state. \<^verbatim>\<open>crossref_lookup\<close> answers a pair \<^verbatim>\<open>(doi, url)\<close>, \<^verbatim>\<open>altmetric_lookup\<close> an
  identifier; \<^verbatim>\<open>None\<close> is \<^term>\<open>None\<close>. Both catch their own exceptions in the source.
\<close>

record 'w lookups =
  crossref_lookup :: "'w \<Rightarrow> string \<Rightarrow> string \<Rightarrow> (string option \<times> string option) \<times> 'w"
  altmetric_lookup :: "'w \<Rightarrow> string \<Rightarrow> string \<Rightarrow> string option \<times> 'w"

record enrich_args =
  dry_run :: bool
  no_altmetric :: bool
  altmetric_key :: string

text \<open>Python's truth value of a \<^verbatim>\<open>str | None\<close>.\<close>

definition truthy :: "string option \<Rightarrow> bool" where
  "truthy x = (case x of None \<Rightarrow> False | Some s \<Rightarrow> s \<noteq> [])"

text \<open>\<^verbatim>\<open>s.split(sep)[0]\<close> for a separator that is not empty.\<close>

fun py_split0 :: "string \<Rightarrow> string \<Rightarrow> string" where
  "py_split0 sep [] = []"
| "py_split0 sep (c # cs) = (if prefix sep (c # cs) then [] else c # py_split0 sep cs)"

datatype call = Crossref_call string string | Altmetric_call string string

text \<open>
  The first lines of the loop over the entries in \<^verbatim>\<open>main\<close> of \<^verbatim>\<open>enrich_bib.py\<close>:
  \<^verbatim>\<open>title = fields.get("title", "")\<close> and
  \<^verbatim>\<open>first_author = authors_raw.split(" and ")[0].split(",")[0].strip() if authors_raw else ""\<close>.
\<close>

definition title_of :: "entry \<Rightarrow> string" where
  "title_of entry = (case e_fields entry ''title'' of Some t \<Rightarrow> t | None \<Rightarrow> [])"

definition first_author_of :: "entry \<Rightarrow> string" where
  "first_author_of entry =
     (let authors_raw = (case e_fields entry ''author'' of Some a \<Rightarrow> a | None \<Rightarrow> [])
      in if authors_raw \<noteq> [] then py_strip (py_split0 '','' (py_split0 '' and '' authors_raw)) else [])"

text \<open>
  The rest of the loop body, for one entry: the replacement it appends, if any, the
  lookups it made, and the world after them. \<open>env_key\<close> is the environment variable
  \<^verbatim>\<open>ALTMETRIC_KEY\<close>, empty when unset.
\<close>

definition enrich_entry ::
  "'w lookups \<Rightarrow> enrich_args \<Rightarrow> string \<Rightarrow> 'w \<Rightarrow> entry \<Rightarrow> replacement option \<times> call list \<times> 'w" where
  "enrich_entry lk args env_key w entry =
     (let fields = e_fields entry;
          title = title_of entry;
          first_author = first_author_of entry;
          need_doi = (fields ''doi'' = None);
          need_html = (fields ''html'' = None);
          need_alt = (fields ''altmetric'' = None \<and> \<not> no_altmetric args)
      in if \<not> (need_doi \<or> need_html \<or> need_alt) then (None, [], w)
         else
           (let (to_add1, doi, calls1, w1) =
                  (if need_doi \<or> need_html then
                     (case crossref_lookup lk w title first_author of
                        ((cr_doi, cr_url), w') \<Rightarrow>
                          ((if truthy cr_doi \<and> need_doi then [(''doi'', the cr_doi)] else [])
                             @ (if truthy cr_url \<and> need_html then [(''html'', the cr_url)] else []),
                           (if truthy cr_doi \<and> need_doi then cr_doi else fields ''doi''),
                           [Crossref_call title first_author], w'))
                   else ([], fields ''doi'', [], w));
                (to_add, calls, w2) =
                  (if need_alt \<and> truthy doi then
                     (let api_key = (if altmetric_key args \<noteq> [] then altmetric_key args else env_key)
                      in case altmetric_lookup lk w1 (the doi) api_key of
                           (aid, w') \<Rightarrow>
                             ((if truthy aid then to_add1 @ [(''altmetric'', the aid)] else to_add1),
                              calls1 @ [Altmetric_call (the doi) api_key], w'))
                   else (to_add1, calls1, w1))
            in ((if to_add \<noteq> [] then Some (e_span entry, inject_fields (e_raw entry) to_add) else None),
                calls, w2)))"

fun enrich_loop ::
  "'w lookups \<Rightarrow> enrich_args \<Rightarrow> string \<Rightarrow> 'w \<Rightarrow> entry list \<Rightarrow> replacement list \<times> call list \<times> 'w" where
  "enrich_loop lk args env_key w [] = ([], [], w)"
| "enrich_loop lk args env_key w (entry # entries) =
     (case enrich_entry lk args env_key w entry of
        (r, cs, w1) \<Rightarrow>
          (case enrich_loop lk args env_key w1 entries of
             (rs, cs', w2) \<Rightarrow> ((case r of None \<Rightarrow> rs | Some x \<Rightarrow> x # rs), cs @ cs', w2)))"

text \<open>
  A run of a script. The world is the bibliography file and the state of everything
  else. The file is \<open>No_file\<close> when \<^verbatim>\<open>bib_path.exists()\<close> is false, \<open>Unreadable\<close> when the
  path exists and \<^verbatim>\<open>bib_path.read_text()\<close> raises (the path is a directory, the bytes do
  not decode, the permission is missing), and \<open>Holds text\<close> when \<^verbatim>\<open>read_text\<close> returns
  \<open>text\<close>: the file is known by the text that is read from it, not by its bytes.
  \<^verbatim>\<open>bib_path.write_text(new_text)\<close> is taken to succeed, and leaves a file that holds
  \<open>new_text\<close>.

  \<open>printed\<close> holds what the last stage of \<^verbatim>\<open>main\<close> prints, one message per \<^verbatim>\<open>print\<close>
  statement; the line \<^verbatim>\<open>Found ... entries\<close> and the progress lines of the loop are left
  out. \<open>patches\<close> is the list \<^verbatim>\<open>replacements\<close> at the end of the loop, empty when the run
  ends before the loop. \<^verbatim>\<open>sys.exit\<close> with a message ends the process with status 1, as
  an exception that nothing catches does; a \<^verbatim>\<open>main\<close> that returns ends it with status 0.
\<close>

datatype file_state = No_file | Unreadable | Holds string

record 'w world =
  bib_file :: file_state
  outside :: 'w

datatype msg =
    Nothing_to_update
  | Dry_run_header
  | Full_text string
  | Written nat
  | Dry_run_notice
  | Updated nat

record 'w outcome =
  exit_status :: nat
  world_after :: "'w world"
  printed :: "msg list"
  patches :: "replacement list"

definition main_enrich :: "'w lookups \<Rightarrow> enrich_args \<Rightarrow> string \<Rightarrow> 'w world \<Rightarrow> 'w outcome" where
  "main_enrich lk args env_key W =
     (case bib_file W of
        No_file \<Rightarrow> \<lparr>exit_status = 1, world_after = W, printed = [], patches = []\<rparr>
      | Unreadable \<Rightarrow> \<lparr>exit_status = 1, world_after = W, printed = [], patches = []\<rparr>
      | Holds text \<Rightarrow>
          (case enrich_loop lk args env_key (outside W) (parse_entries text) of
             (replacements, calls, w') \<Rightarrow>
               if replacements = [] then
                 \<lparr>exit_status = 0, world_after = W\<lparr>outside := w'\<rparr>, printed = [Nothing_to_update],
                  patches = replacements\<rparr>
               else
                 (let new_text = apply_replacements text replacements
                  in if dry_run args then
                       \<lparr>exit_status = 0, world_after = W\<lparr>outside := w'\<rparr>,
                        printed = [Dry_run_header, Full_text new_text],
                        patches = replacements\<rparr>
                     else
                       \<lparr>exit_status = 0, world_after = \<lparr>bib_file = Holds new_text, outside = w'\<rparr>,
                        printed = [Written (length replacements)],
                        patches = replacements\<rparr>)))"

section \<open>The thumbnail fetcher\<close>

text \<open>
  What \<^verbatim>\<open>fetch_thumbnails.py\<close> asks of the network and of the directory of previews:
  \<^verbatim>\<open>PREVIEW_DIR.mkdir\<close> (\<^term>\<open>True\<close> when it returns, \<^term>\<open>False\<close> when it raises, which
  nothing catches), \<^verbatim>\<open>dest.exists()\<close> for a file name in that directory,
  \<^verbatim>\<open>download_image\<close> (the name of the saved file, or \<^verbatim>\<open>None\<close>), \<^verbatim>\<open>fetch_science\<close>,
  \<^verbatim>\<open>fetch_url\<close> (\<^term>\<open>None\<close> when it raises; the caller catches), \<^verbatim>\<open>extract_og_image\<close>, the
  suffix \<^verbatim>\<open>Path(urlparse(u).path).suffix.lower()\<close> of a URL and its origin
  \<^verbatim>\<open>f"{p.scheme}://{p.netloc}"\<close>. On the URLs met in a run, \<^verbatim>\<open>urlparse\<close> and
  \<^verbatim>\<open>urllib.request.Request\<close> are taken to return. None of the services touches the
  bibliography file.
\<close>

record 'w services =
  mkdir_preview :: "'w \<Rightarrow> bool \<times> 'w"
  dest_exists :: "'w \<Rightarrow> string \<Rightarrow> bool"
  download_image :: "'w \<Rightarrow> string \<Rightarrow> string \<Rightarrow> string option \<times> 'w"
  fetch_science :: "'w \<Rightarrow> string \<Rightarrow> string option \<times> 'w"
  fetch_url :: "'w \<Rightarrow> string \<Rightarrow> (string \<times> string) option \<times> 'w"
  extract_og_image :: "string \<Rightarrow> string option"
  url_suffix :: "string \<Rightarrow> string"
  url_origin :: "string \<Rightarrow> string"

record thumb_args =
  dry_run_t :: bool
  force :: bool

definition FALLBACK_LOGOS :: "string \<rightharpoonup> string \<times> string" where
  "FALLBACK_LOGOS = map_of
     [(''biorxiv'', (''biorxiv_logo'', ''https://upload.wikimedia.org/wikipedia/commons/d/db/BioRxiv_logo.png'')),
      (''medrxiv'', (''medrxiv_logo'', ''https://upload.wikimedia.org/wikipedia/commons/c/c6/MedRxiv_homepage_logo.png'')),
      (''science'', (''science_logo'', ''https://upload.wikimedia.org/wikipedia/commons/e/eb/Science_Magazine_logo.svg'')),
      (''10.1126'', (''science_logo'', ''https://upload.wikimedia.org/wikipedia/commons/e/eb/Science_Magazine_logo.svg'')),
      (''10.64898'', (''biorxiv_logo'', ''https://upload.wikimedia.org/wikipedia/commons/d/db/BioRxiv_logo.png''))]"

definition detect_fallback :: "string \<Rightarrow> string \<Rightarrow> (string \<times> string) option" where
  "detect_fallback journal doi =
     (let j = py_lower journal
      in case FALLBACK_LOGOS j of
           Some logo \<Rightarrow> Some logo
         | None \<Rightarrow>
             (let doi_prefix = (if CHR ''/'' \<in> set doi then py_split0 ''/'' doi else [])
              in FALLBACK_LOGOS doi_prefix))"

definition get_or_download_logo :: "'w services \<Rightarrow> 'w \<Rightarrow> string \<Rightarrow> string \<Rightarrow> bool \<Rightarrow> string option \<times> 'w" where
  "get_or_download_logo sv w stem logo_url dry =
     (let ext0 = (if url_suffix sv logo_url \<noteq> [] then url_suffix sv logo_url else ''.png'');
          ext = (if ext0 \<in> set [''.jpg'', ''.jpeg'', ''.png'', ''.gif'', ''.webp'', ''.svg''] then ext0 else ''.png'');
          filename = stem @ ext
      in if dest_exists sv w filename then (Some filename, w)
         else if dry then (Some filename, w)
         else download_image sv w logo_url filename)"

text \<open>\<^verbatim>\<open>re.sub(r"[^a-zA-Z0-9_\-]", "_", key)\<close>: the class is written out in the pattern.\<close>

definition sanitize :: "string \<Rightarrow> string" where
  "sanitize k = map (\<lambda>c. let n = (of_char c :: nat) in
                       if (97 \<le> n \<and> n \<le> 122) \<or> (65 \<le> n \<and> n \<le> 90) \<or> (48 \<le> n \<and> n \<le> 57)
                          \<or> n = 95 \<or> n = 45
                       then c else CHR ''_'') k"

text \<open>
  The body of the loop in \<^verbatim>\<open>main\<close> of \<^verbatim>\<open>fetch_thumbnails.py\<close> up to \<^verbatim>\<open>if filename:\<close>,
  for an entry that was not skipped: the file name found, if any.
\<close>

definition find_thumbnail ::
  "'w services \<Rightarrow> thumb_args \<Rightarrow> 'w \<Rightarrow> string \<Rightarrow> string \<Rightarrow> string \<Rightarrow> string \<Rightarrow> string option \<times> 'w" where
  "find_thumbnail sv args w k doi html journal =
     (let fallback = detect_fallback journal doi;
          is_preprint = (py_lower journal \<in> set [''biorxiv'', ''medrxiv''])
      in if is_preprint \<and> fallback \<noteq> None then
           (case the fallback of (stem, logo_url) \<Rightarrow> get_or_download_logo sv w stem logo_url (dry_run_t args))
         else if py_lower journal = ''science'' \<or> prefix ''10.1126'' doi then
           (if \<not> dry_run_t args then
              (let (filename, w2) =
                     (case fetch_science sv w doi of
                        (img_url, w1) \<Rightarrow>
                          if truthy img_url then
                            (let ext = (if url_suffix sv (the img_url) \<noteq> [] then url_suffix sv (the img_url) else ''.jpg'')
                             in download_image sv w1 (the img_url) (sanitize k @ ext))
                          else (None, w1))
               in if \<not> truthy filename then
                    (case the (FALLBACK_LOGOS ''science'') of
                       (stem, logo_url) \<Rightarrow> get_or_download_logo sv w2 stem logo_url (dry_run_t args))
                  else (filename, w2))
            else (None, w))
         else
           (let start_url = (if doi \<noteq> [] then ''https://doi.org/'' @ doi else html)
            in if \<not> dry_run_t args then
                 (let (filename, w2) =
                        (case fetch_url sv w start_url of
                           (None, w1) \<Rightarrow> (None, w1)
                         | (Some (final_url, html_text), w1) \<Rightarrow>
                             (let img_url = extract_og_image sv html_text
                              in if truthy img_url then
                                   (let u = the img_url;
                                        img = (if prefix ''//'' u then ''https:'' @ u
                                               else if prefix ''/'' u then url_origin sv final_url @ u
                                               else u);
                                        ext0 = (if url_suffix sv img \<noteq> [] then url_suffix sv img else ''.jpg'');
                                        ext = (if ext0 \<in> set [''.jpg'', ''.jpeg'', ''.png'', ''.gif'', ''.webp'']
                                               then ext0 else ''.jpg'')
                                    in download_image sv w1 img (sanitize k @ ext))
                                 else (None, w1)))
                  in if \<not> truthy filename then
                       (case detect_fallback journal doi of
                          Some (stem, logo_url) \<Rightarrow> get_or_download_logo sv w2 stem logo_url (dry_run_t args)
                        | None \<Rightarrow> (filename, w2))
                     else (filename, w2))
               else (None, w)))"

definition thumb_entry :: "'w services \<Rightarrow> thumb_args \<Rightarrow> 'w \<Rightarrow> entry \<Rightarrow> replacement option \<times> 'w" where
  "thumb_entry sv args w entry =
     (let fields = e_fields entry
      in if \<not> force args \<and> fields ''preview'' \<noteq> None then (None, w)
         else
           (let doi = (case fields ''doi'' of Some d \<Rightarrow> d | None \<Rightarrow> []);
                html = (case fields ''html'' of Some h \<Rightarrow> h | None \<Rightarrow> []);
                journal = (case fields ''journal'' of Some j \<Rightarrow> j | None \<Rightarrow> [])
            in if doi = [] \<and> html = [] then (None, w)
               else
                 (case find_thumbnail sv args w (e_key entry) doi html journal of
                    (filename, w1) \<Rightarrow>
                      ((if truthy filename
                        then Some (e_span entry, inject_field (e_raw entry) ''preview'' (the filename))
                        else None), w1))))"

fun thumb_loop :: "'w services \<Rightarrow> thumb_args \<Rightarrow> 'w \<Rightarrow> entry list \<Rightarrow> replacement list \<times> 'w" where
  "thumb_loop sv args w [] = ([], w)"
| "thumb_loop sv args w (entry # entries) =
     (case thumb_entry sv args w entry of
        (r, w1) \<Rightarrow>
          (case thumb_loop sv args w1 entries of
             (rs, w2) \<Rightarrow> ((case r of None \<Rightarrow> rs | Some x \<Rightarrow> x # rs), w2)))"

definition main_thumb :: "'w services \<Rightarrow> thumb_args \<Rightarrow> 'w world \<Rightarrow> 'w outcome" where
  "main_thumb sv args W =
     (case bib_file W of
        No_file \<Rightarrow> \<lparr>exit_status = 1, world_after = W, printed = [], patches = []\<rparr>
      | _ \<Rightarrow>
          (case mkdir_preview sv (outside W) of
             (made, w0) \<Rightarrow>
               if \<not> made then
                 \<lparr>exit_status = 1, world_after = W\<lparr>outside := w0\<rparr>, printed = [], patches = []\<rparr>
               else
                 (case bib_file W of
                    Holds text \<Rightarrow>
                      (case parse_entries_thumb text of
                         Inl err \<Rightarrow>
                           \<lparr>exit_status = 1, world_after = W\<lparr>outside := w0\<rparr>, printed = [],
                            patches = []\<rparr>
                       | Inr entries \<Rightarrow>
                           (case thumb_loop sv args w0 entries of
                              (replacements, w') \<Rightarrow>
                                if replacements = [] then
                                  \<lparr>exit_status = 0, world_after = W\<lparr>outside := w'\<rparr>,
                                   printed = (if \<not> dry_run_t args then [Nothing_to_update] else []),
                                   patches = replacements\<rparr>
                                else
                                  (let new_text = apply_replacements text replacements
                                   in if dry_run_t args then
                                        \<lparr>exit_status = 0, world_after = W\<lparr>outside := w'\<rparr>,
                                         printed = [Dry_run_notice], patches = replacements\<rparr>
                                      else
                                        \<lparr>exit_status = 0,
                                         world_after = \<lparr>bib_file = Holds new_text, outside = w'\<rparr>,
                                         printed = [Updated (length replacements)],
                                         patches = replacements\<rparr>)))
                  | _ \<Rightarrow>
                      \<lparr>exit_status = 1, world_after = W\<lparr>outside := w0\<rparr>, printed = [],
                       patches = []\<rparr>)))"

section \<open>Notions for the proofs\<close>

text \<open>No newline of the text is directly followed by a closing brace.\<close>

fun no_close :: "string \<Rightarrow> bool" where
  "no_close (a # b # r) = (\<not> (a = nl \<and> b = CHR ''}'') \<and> no_close (b # r))"
| "no_close _ = True"

text \<open>The texts of the entries, by the recursion of \<^const>\<open>finditer_entries\<close>.\<close>

function entry_texts :: "string \<Rightarrow> string list" where
  "entry_texts [] = []"
| "entry_texts (c # cs) =
     (case match_entry (c # cs) of
        Some n \<Rightarrow> take n (c # cs) # entry_texts (drop n (c # cs))
      | None \<Rightarrow> entry_texts cs)"
  by pat_completeness auto
termination
  by (relation "measure length") (auto dest: match_entry_pos)

text \<open>
  The text with every entry replaced by what \<open>m\<close> holds for its span, and kept where
  \<open>m\<close> holds nothing.
\<close>

function patch_scan :: "((nat \<times> nat) \<rightharpoonup> string) \<Rightarrow> nat \<Rightarrow> string \<Rightarrow> string" where
  "patch_scan m pos [] = []"
| "patch_scan m pos (c # cs) =
     (case match_entry (c # cs) of
        Some n \<Rightarrow> (case m (pos, pos + n) of Some new_raw \<Rightarrow> new_raw | None \<Rightarrow> take n (c # cs))
                    @ patch_scan m (pos + n) (drop n (c # cs))
      | None \<Rightarrow> c # patch_scan m (pos + 1) cs)"
  by pat_completeness auto
termination
  by (relation "measure (\<lambda>(m, pos, s). length s)") (auto dest: match_entry_pos)

text \<open>
  A replacement is \<open>whole\<close> when it is one entry for the scanner whatever follows it.
\<close>

definition whole :: "string \<Rightarrow> bool" where
  "whole r \<longleftrightarrow> (\<forall>z. match_entry (r @ z) = Some (length r))"

text \<open>Spans that follow one another from \<open>lo\<close> on, none of them empty.\<close>

fun chain :: "nat \<Rightarrow> (nat \<times> nat) list \<Rightarrow> bool" where
  "chain lo [] = True"
| "chain lo ((s, e) # r) = (lo \<le> s \<and> s < e \<and> chain e r)"

text \<open>
  The text from \<open>pos\<close> on, with the spans replaced by what \<open>m\<close> holds for them.
\<close>

fun rebuild :: "string \<Rightarrow> ((nat \<times> nat) \<rightharpoonup> string) \<Rightarrow> nat \<Rightarrow> (nat \<times> nat) list \<Rightarrow> string" where
  "rebuild text m pos [] = drop pos text"
| "rebuild text m pos ((s, e) # r) =
     take (s - pos) (drop pos text)
       @ (case m (s, e) of Some new_raw \<Rightarrow> new_raw | None \<Rightarrow> take (e - s) (drop s text))
       @ rebuild text m e r"

text \<open>The replacements that \<open>m\<close> holds for the spans, in the order of the spans.\<close>

fun patched :: "((nat \<times> nat) \<rightharpoonup> string) \<Rightarrow> (nat \<times> nat) list \<Rightarrow> replacement list" where
  "patched m [] = []"
| "patched m (sp # r) = (case m sp of Some new_raw \<Rightarrow> (sp, new_raw) # patched m r | None \<Rightarrow> patched m r)"

section \<open>Facts about \<open>rfind\<close>\<close>

lemma py_rfind_None_iff:
  "py_rfind s sub = None \<longleftrightarrow> (\<forall>j \<le> length s. \<not> prefix sub (drop j s))"
proof (induction s)
  case Nil
  then show ?case by simp
next
  case (Cons c cs)
  have "(\<forall>j \<le> Suc (length cs). \<not> prefix sub (drop j (c # cs))) \<longleftrightarrow>
        (\<not> prefix sub (c # cs) \<and> (\<forall>j \<le> length cs. \<not> prefix sub (drop j cs)))"
    (is "?L \<longleftrightarrow> ?R")
  proof
    assume l: ?L
    have "\<not> prefix sub (c # cs)" using l [rule_format, of 0] by simp
    moreover have "\<forall>j \<le> length cs. \<not> prefix sub (drop j cs)"
    proof (intro allI impI)
      fix j assume "j \<le> length cs"
      then show "\<not> prefix sub (drop j cs)" using l [rule_format, of "Suc j"] by simp
    qed
    ultimately show ?R by simp
  next
    assume r: ?R
    show ?L
    proof (intro allI impI)
      fix j assume "j \<le> Suc (length cs)"
      then show "\<not> prefix sub (drop j (c # cs))" using r by (cases j) auto
    qed
  qed
  with Cons show ?case by (auto split: option.splits)
qed

lemma sublist_iff_prefix_drop:
  "sublist sub s \<longleftrightarrow> (\<exists>j \<le> length s. prefix sub (drop j s))"
proof
  assume "sublist sub s"
  then obtain ps ss where s: "s = ps @ sub @ ss" by (auto simp: sublist_def)
  then have "prefix sub (drop (length ps) s)" by simp
  moreover have "length ps \<le> length s" using s by simp
  ultimately show "\<exists>j \<le> length s. prefix sub (drop j s)" by blast
next
  assume "\<exists>j \<le> length s. prefix sub (drop j s)"
  then obtain j ss where "drop j s = sub @ ss" by (auto simp: prefix_def)
  then have "s = take j s @ sub @ ss" by (metis append_take_drop_id)
  then show "sublist sub s" unfolding sublist_def by blast
qed

lemma py_rfind_None_sublist: "py_rfind s sub = None \<longleftrightarrow> \<not> sublist sub s"
  by (simp add: py_rfind_None_iff sublist_iff_prefix_drop)

lemma py_rfind_le: "py_rfind s sub = Some i \<Longrightarrow> i \<le> length s"
  by (induction s arbitrary: i) (auto split: option.splits if_splits)

lemma py_rfind_Some_iff:
  "py_rfind s sub = Some i \<longleftrightarrow>
     i \<le> length s \<and> prefix sub (drop i s) \<and> (\<forall>j. i < j \<and> j \<le> length s \<longrightarrow> \<not> prefix sub (drop j s))"
proof (induction s arbitrary: i)
  case Nil
  then show ?case by auto
next
  case (Cons c cs)
  show ?case
  proof (cases "py_rfind cs sub")
    case None
    then have no: "\<forall>j \<le> length cs. \<not> prefix sub (drop j cs)"
      by (simp add: py_rfind_None_iff)
    show ?thesis
    proof (cases i)
      case 0
      have "(\<forall>j. 0 < j \<and> j \<le> Suc (length cs) \<longrightarrow> \<not> prefix sub (drop j (c # cs)))"
      proof (intro allI impI)
        fix j assume "0 < j \<and> j \<le> Suc (length cs)"
        then obtain k where "j = Suc k" "k \<le> length cs" by (cases j) auto
        then show "\<not> prefix sub (drop j (c # cs))" using no by simp
      qed
      with None 0 show ?thesis by auto
    next
      case (Suc k)
      with None no show ?thesis by auto
    qed
  next
    case (Some m)
    then have m: "m \<le> length cs" "prefix sub (drop m cs)"
      "\<forall>j. m < j \<and> j \<le> length cs \<longrightarrow> \<not> prefix sub (drop j cs)"
      using Cons.IH [of m] by auto
    show ?thesis
    proof (cases i)
      case 0
      have "prefix sub (drop (Suc m) (c # cs))" using m by simp
      moreover have "0 < Suc m \<and> Suc m \<le> length (c # cs)" using m by simp
      ultimately have "\<not> (\<forall>j. 0 < j \<and> j \<le> length (c # cs) \<longrightarrow> \<not> prefix sub (drop j (c # cs)))"
        by blast
      with Some 0 show ?thesis by simp
    next
      case (Suc k)
      have "(\<forall>j. Suc k < j \<and> j \<le> length (c # cs) \<longrightarrow> \<not> prefix sub (drop j (c # cs)))
            \<longleftrightarrow> (\<forall>j. k < j \<and> j \<le> length cs \<longrightarrow> \<not> prefix sub (drop j cs))"
        (is "?A \<longleftrightarrow> ?B")
      proof
        assume a: ?A
        show ?B
        proof (intro allI impI)
          fix j assume "k < j \<and> j \<le> length cs"
          then show "\<not> prefix sub (drop j cs)" using a [rule_format, of "Suc j"] by simp
        qed
      next
        assume b: ?B
        show ?A
        proof (intro allI impI)
          fix j assume "Suc k < j \<and> j \<le> length (c # cs)"
          then obtain j' where "j = Suc j'" "k < j'" "j' \<le> length cs" by (cases j) auto
          then show "\<not> prefix sub (drop j (c # cs))" using b by simp
        qed
      qed
      with Some Suc Cons.IH [of k] show ?thesis by simp
    qed
  qed
qed

lemma py_rfind_marker:
  assumes "\<not> sublist [nl, CHR ''}''] rest"
  shows "py_rfind (b @ [nl, CHR ''}''] @ rest) [nl, CHR ''}''] = Some (length b)"
proof -
  let ?m = "[nl, CHR ''}'']"
  have "\<not> prefix ?m (drop j (b @ ?m @ rest))" if j: "length b < j" "j \<le> length (b @ ?m @ rest)" for j
  proof (cases "j = Suc (length b)")
    case True
    then show ?thesis by simp
  next
    case False
    define k where "k = j - (length b + 2)"
    with False j have k: "j = length b + 2 + k" "k \<le> length rest" by auto
    then have "drop j (b @ ?m @ rest) = drop k rest" by simp
    with assms k show ?thesis by (auto simp: sublist_iff_prefix_drop)
  qed
  then show ?thesis by (simp add: py_rfind_Some_iff)
qed

lemma not_prefix_drop: "c \<notin> set l \<Longrightarrow> \<not> prefix (c # s) (drop j l)"
proof
  assume c: "c \<notin> set l" and "prefix (c # s) (drop j l)"
  then obtain zs where "drop j l = c # s @ zs" by (auto simp: prefix_def)
  then have "c \<in> set (drop j l)" by simp
  with c show False by (auto dest: in_set_dropD)
qed

lemma py_rfind_last_line:
  assumes "nl \<notin> set line" and "pre = [] \<or> last pre = nl"
  shows "(case py_rfind (pre @ line) [nl] of None \<Rightarrow> 0 | Some j \<Rightarrow> j + 1) = length pre"
proof (cases "pre = []")
  case True
  have "\<not> prefix [nl] (drop j line)" for j
    using assms(1) by (rule not_prefix_drop)
  then have "py_rfind line [nl] = None" by (simp add: py_rfind_None_iff)
  with True show ?thesis by simp
next
  case False
  with assms(2) obtain p where p: "pre = p @ [nl]" by (metis append_butlast_last_id)
  have "\<not> prefix [nl] (drop j (pre @ line))" if j: "length p < j" for j
  proof -
    define k where "k = j - length pre"
    with j p have "j = length pre + k" by auto
    then have "drop j (pre @ line) = drop k line" by simp
    then show ?thesis using assms(1) by (simp add: not_prefix_drop)
  qed
  then have "py_rfind (pre @ line) [nl] = Some (length p)"
    using p by (simp add: py_rfind_Some_iff)
  with p show ?thesis by simp
qed

lemma prefix_single_drop: "prefix [c] (drop j l) \<longleftrightarrow> j < length l \<and> l ! j = c"
proof (cases "j < length l")
  case True
  then have "drop j l = l ! j # drop (Suc j) l" by (simp add: Cons_nth_drop_Suc)
  with True show ?thesis by auto
next
  case False
  then show ?thesis by simp
qed

lemma last_line_split:
  fixes before :: string
  defines "k \<equiv> (case py_rfind before [nl] of None \<Rightarrow> 0 | Some j \<Rightarrow> j + 1)"
  shows "(take k before = [] \<or> last (take k before) = nl) \<and> nl \<notin> set (drop k before)"
proof (cases "py_rfind before [nl]")
  case None
  then have "\<not> prefix [nl] (drop j before)" if "j < length before" for j
    using that by (simp add: py_rfind_None_iff)
  then have "\<forall>j < length before. before ! j \<noteq> nl"
    by (simp add: prefix_single_drop)
  then have "nl \<notin> set before" by (auto simp: in_set_conv_nth)
  with None show ?thesis by (simp add: k_def)
next
  case (Some j)
  then have j: "j < length before" "before ! j = nl"
    and later: "\<forall>j'. j < j' \<and> j' < length before \<longrightarrow> before ! j' \<noteq> nl"
    by (auto simp: py_rfind_Some_iff prefix_single_drop)
  have "take (Suc j) before = take j before @ [nl]"
    using j by (simp add: take_Suc_conv_app_nth)
  then have a: "last (take (Suc j) before) = nl" by simp
  have b: "nl \<notin> set (drop (Suc j) before)"
  proof
    assume "nl \<in> set (drop (Suc j) before)"
    then obtain n where "n < length before - Suc j" "drop (Suc j) before ! n = nl"
      by (auto simp: in_set_conv_nth)
    then have "Suc j + n < length before" "before ! (Suc j + n) = nl" by auto
    with later show False by auto
  qed
  from Some a b show ?thesis by (simp add: k_def)
qed

lemma marker_decomposition:
  assumes "py_rfind raw [nl, CHR ''}''] = Some idx"
  shows "\<exists>pre line rest. raw = pre @ line @ [nl, CHR ''}''] @ rest \<and> (pre = [] \<or> last pre = nl)
     \<and> nl \<notin> set line \<and> \<not> sublist [nl, CHR ''}''] rest \<and> pre @ line = take idx raw"
proof -
  let ?m = "[nl, CHR ''}'']"
  from assms have i: "idx \<le> length raw" "prefix ?m (drop idx raw)"
    and later: "\<forall>j. idx < j \<and> j \<le> length raw \<longrightarrow> \<not> prefix ?m (drop j raw)"
    by (simp_all add: py_rfind_Some_iff)
  from i(2) obtain rest where rest: "drop idx raw = ?m @ rest" by (auto simp: prefix_def)
  let ?before = "take idx raw"
  have raw: "raw = ?before @ ?m @ rest" using rest by (metis append_take_drop_id)
  have len: "length raw = idx + 2 + length rest"
    using arg_cong [OF raw, of length] i(1) by simp
  have nosub: "\<not> sublist ?m rest"
  proof
    assume "sublist ?m rest"
    then obtain k where k: "k \<le> length rest" "prefix ?m (drop k rest)"
      by (auto simp: sublist_iff_prefix_drop)
    have "drop (2 + k) (drop idx raw) = drop k rest" by (simp add: rest)
    then have "drop (2 + k + idx) raw = drop k rest" by (simp only: drop_drop)
    moreover have "idx < 2 + k + idx \<and> 2 + k + idx \<le> length raw" using k(1) len by simp
    ultimately show False using later k(2) by metis
  qed
  define k where "k = (case py_rfind ?before [nl] of None \<Rightarrow> 0 | Some j \<Rightarrow> j + 1)"
  have pl: "(take k ?before = [] \<or> last (take k ?before) = nl) \<and> nl \<notin> set (drop k ?before)"
    unfolding k_def by (rule last_line_split)
  have "raw = take k ?before @ drop k ?before @ ?m @ rest"
    using raw by (metis append_take_drop_id append.assoc)
  moreover have "take k ?before @ drop k ?before = take idx raw" by (rule append_take_drop_id)
  ultimately show ?thesis using pl nosub by blast
qed

section \<open>Facts about the merger\<close>

lemma py_rstrip_decomp: "l = py_rstrip l @ rev (takeWhile is_space (rev l))"
proof -
  have "py_rstrip l @ rev (takeWhile is_space (rev l))
      = rev (takeWhile is_space (rev l) @ dropWhile is_space (rev l))"
    by (simp only: py_rstrip_def rev_append)
  then show ?thesis by simp
qed

lemma py_strip_Nil_iff: "py_strip l = [] \<longleftrightarrow> (\<forall>c \<in> set l. is_space c)"
proof
  assume "py_strip l = []"
  then have a: "\<forall>c \<in> set (py_rstrip l). is_space c"
    by (simp add: py_strip_def)
  have b: "\<forall>c \<in> set (rev (takeWhile is_space (rev l))). is_space c"
    by (auto dest: set_takeWhileD)
  have "set l = set (py_rstrip l) \<union> set (rev (takeWhile is_space (rev l)))"
    using py_rstrip_decomp [of l] by (metis set_append)
  with a b show "\<forall>c \<in> set l. is_space c" by blast
next
  assume "\<forall>c \<in> set l. is_space c"
  then show "py_strip l = []"
    by (auto simp: py_strip_def py_rstrip_def dest: set_dropWhileD)
qed

lemma py_rstrip_nl_comma: "py_rstrip_nl (s @ '','' @ [nl]) = s @ '',''"
  by (simp add: py_rstrip_nl_def)

lemma inject_fields_form:
  assumes raw: "raw = pre @ line @ [nl, CHR ''}''] @ rest"
    and pre: "pre = [] \<or> last pre = nl"
    and line: "nl \<notin> set line"
    and rest: "\<not> sublist [nl, CHR ''}''] rest"
  shows "inject_fields raw fs =
     (if (\<exists>c \<in> set line. \<not> is_space c) \<and> \<not> suffix '','' (py_rstrip line)
      then pre @ py_rstrip line @ '','' else pre @ line)
     @ [nl] @ py_join [nl] (map (\<lambda>(name, v). field_line name v) fs) @ [nl] @ [nl, CHR ''}''] @ rest"
proof -
  have idx: "py_rfind raw [nl, CHR ''}''] = Some (length (pre @ line))"
    using py_rfind_marker [OF rest, of "pre @ line"] raw by simp
  have k: "(case py_rfind (pre @ line) [nl] of None \<Rightarrow> 0 | Some j \<Rightarrow> j + 1) = length pre"
    using py_rfind_last_line [OF line pre] .
  have t: "take (length (pre @ line)) raw = pre @ line"
    and d: "drop (length (pre @ line)) raw = [nl, CHR ''}''] @ rest"
    using raw by simp_all
  show ?thesis
    unfolding inject_fields_def Let_def idx option.case t d k
    by (simp add: py_strip_Nil_iff py_rstrip_nl_def)
qed

lemma inject_field_form:
  assumes raw: "raw = pre @ line @ [nl, CHR ''}''] @ rest"
    and pre: "pre = [] \<or> last pre = nl"
    and line: "nl \<notin> set line"
    and rest: "\<not> sublist [nl, CHR ''}''] rest"
  shows "inject_field raw name v =
     (if (\<exists>c \<in> set line. \<not> is_space c) \<and> \<not> suffix '','' (py_rstrip line)
      then pre @ py_rstrip line @ '','' else pre @ line)
     @ [nl] @ field_line name v @ [nl] @ [nl, CHR ''}''] @ rest"
proof -
  have idx: "py_rfind raw [nl, CHR ''}''] = Some (length (pre @ line))"
    using py_rfind_marker [OF rest, of "pre @ line"] raw by simp
  have k: "(case py_rfind (pre @ line) [nl] of None \<Rightarrow> 0 | Some j \<Rightarrow> j + 1) = length pre"
    using py_rfind_last_line [OF line pre] .
  have t: "take (length (pre @ line)) raw = pre @ line"
    and d: "drop (length (pre @ line)) raw = [nl, CHR ''}''] @ rest"
    using raw by simp_all
  show ?thesis
    unfolding inject_field_def Let_def idx option.case t d k
    by (simp add: py_strip_Nil_iff)
qed

lemma py_join_nl: "fs \<noteq> [] \<Longrightarrow> py_join [nl] (map f fs) @ [nl] = concat (map (\<lambda>x. f x @ [nl]) fs)"
  by (induction fs rule: induct_list012) auto


lemma py_rstrip_prefix:
  "prefix (py_rstrip l) l \<and> (\<forall>c \<in> set (drop (length (py_rstrip l)) l). is_space c)"
proof -
  have d: "l = py_rstrip l @ rev (takeWhile is_space (rev l))" by (rule py_rstrip_decomp)
  then have "drop (length (py_rstrip l)) l = rev (takeWhile is_space (rev l))"
    by (metis append_eq_conv_conj)
  moreover have "\<forall>c \<in> set (rev (takeWhile is_space (rev l))). is_space c"
    by (auto dest: set_takeWhileD)
  moreover have "prefix (py_rstrip l) l" using d by (metis prefixI)
  ultimately show ?thesis by simp
qed




section \<open>The merger: what it keeps, what it repairs\<close>

text \<open>
  C6. A record text in which the closing marker, a newline followed by a closing brace,
  does not occur is returned unchanged by the merger of either script, whatever the
  new fields are.
\<close>

theorem merger_without_marker_unchanged:
  "\<not> sublist [nl, CHR ''}''] raw \<Longrightarrow>
     inject_fields raw new_fields = raw \<and> inject_field raw name v = raw"
  by (simp add: inject_fields_def inject_field_def py_rfind_None_sublist [symmetric])

theorem merger_without_marker_unchanged_witness:
  "\<not> sublist [nl, CHR ''}''] ''@misc{k, title = {T}}'' \<and>
   inject_fields ''@misc{k, title = {T}}'' [(''doi'', ''10.1/x'')] = ''@misc{k, title = {T}}'' \<and>
   inject_field ''@misc{k, title = {T}}'' ''preview'' ''k.png'' = ''@misc{k, title = {T}}''"
proof -
  have h: "\<not> sublist [nl, CHR ''}''] ''@misc{k, title = {T}}''"
    by (simp add: py_rfind_None_sublist [symmetric])
  show ?thesis
    using h merger_without_marker_unchanged [OF h, of "[(''doi'', ''10.1/x'')]" "''preview''" "''k.png''"]
    by simp
qed

text \<open>
  C4, as amended. When the last line before the closing marker has content that is not
  white space and, its trailing white space set aside, does not end with a comma,
  merging one new field gives a text in which that line, without its trailing white
  space, ends with the comma, and the new field line comes after it and before the
  closing marker. The hypotheses describe the record text: \<open>line\<close> is its last line
  before the marker, \<open>pre\<close> what stands before that line, and the marker is the last
  one of the text. Both scripts give the same result.
\<close>

theorem merger_repairs_separator:
  assumes "raw = pre @ line @ [nl, CHR ''}''] @ rest"
    and "pre = [] \<or> last pre = nl"
    and "nl \<notin> set line"
    and "\<not> sublist [nl, CHR ''}''] rest"
    and "\<exists>c \<in> set line. \<not> is_space c"
    and "\<not> suffix '','' (py_rstrip line)"
  shows "inject_fields raw [(name, v)]
           = pre @ (py_rstrip line @ '','') @ [nl] @ field_line name v @ [nl] @ [nl, CHR ''}''] @ rest
       \<and> inject_field raw name v
           = pre @ (py_rstrip line @ '','') @ [nl] @ field_line name v @ [nl] @ [nl, CHR ''}''] @ rest"
  using inject_fields_form [OF assms(1-4), of "[(name, v)]"] inject_field_form [OF assms(1-4), of name v]
    assms(5,6)
  by simp

theorem merger_repairs_separator_witness:
  "''@misc{k,'' @ [nl] @ ''  title = {T}'' @ [nl, CHR ''}'']
      = (''@misc{k,'' @ [nl]) @ ''  title = {T}'' @ [nl, CHR ''}''] @ []
   \<and> last (''@misc{k,'' @ [nl]) = nl
   \<and> nl \<notin> set ''  title = {T}''
   \<and> \<not> is_space CHR ''t'' \<and> CHR ''t'' \<in> set ''  title = {T}''
   \<and> \<not> suffix '','' (py_rstrip ''  title = {T}'')
   \<and> inject_fields (''@misc{k,'' @ [nl] @ ''  title = {T}'' @ [nl, CHR ''}'']) [(''doi'', ''10.1/x'')]
      = ''@misc{k,'' @ [nl] @ ''  title = {T},'' @ [nl] @ ''  doi         = {10.1/x},'' @ [nl] @ [nl, CHR ''}'']
   \<and> inject_field (''@misc{k,'' @ [nl] @ ''  title = {T}'' @ [nl, CHR ''}'']) ''doi'' ''10.1/x''
      = ''@misc{k,'' @ [nl] @ ''  title = {T},'' @ [nl] @ ''  doi         = {10.1/x},'' @ [nl] @ [nl, CHR ''}'']"
proof -
  have h1: "''@misc{k,'' @ [nl] @ ''  title = {T}'' @ [nl, CHR ''}'']
      = (''@misc{k,'' @ [nl]) @ ''  title = {T}'' @ [nl, CHR ''}''] @ []" by simp
  have h2: "(''@misc{k,'' @ [nl]) = [] \<or> last (''@misc{k,'' @ [nl]) = nl" by simp
  have h3: "nl \<notin> set ''  title = {T}''" by simp
  have h4: "\<not> sublist [nl, CHR ''}''] []" by simp
  have t: "\<not> is_space CHR ''t''" by (simp add: is_space_def)
  have h5: "\<exists>c \<in> set ''  title = {T}''. \<not> is_space c" using t by simp
  have rs: "py_rstrip ''  title = {T}'' = ''  title = {T}''" by (simp add: py_rstrip_def is_space_def)
  have h6: "\<not> suffix '','' (py_rstrip ''  title = {T}'')" unfolding rs by (simp add: suffix_def)
  have fl: "field_line ''doi'' ''10.1/x'' = ''  doi         = {10.1/x},''" by code_simp
  show ?thesis
    using merger_repairs_separator [OF h1 h2 h3 h4 h5 h6, of "''doi''" "''10.1/x''"] h2 h3 t h6
    by (simp add: rs fl)
qed

text \<open>
  C4 as stated fails: the last line before the marker below has content and a blank
  after its comma, so it does not end with a comma. The merger looks at the line
  without its trailing white space, finds the comma and appends nothing: in the result
  the line ends with the blank, as before.
\<close>

theorem merger_keeps_blank_after_comma_counterexample:
  "\<not> is_space CHR ''t'' \<and> CHR ''t'' \<in> set ''  title = {T}, ''
   \<and> \<not> suffix '','' ''  title = {T}, ''
   \<and> inject_fields (''@misc{k,'' @ [nl] @ ''  title = {T}, '' @ [nl, CHR ''}'']) [(''doi'', ''10.1/x'')]
      = ''@misc{k,'' @ [nl] @ ''  title = {T}, '' @ [nl] @ ''  doi         = {10.1/x},'' @ [nl] @ [nl, CHR ''}'']
   \<and> inject_field (''@misc{k,'' @ [nl] @ ''  title = {T}, '' @ [nl, CHR ''}'']) ''doi'' ''10.1/x''
      = ''@misc{k,'' @ [nl] @ ''  title = {T}, '' @ [nl] @ ''  doi         = {10.1/x},'' @ [nl] @ [nl, CHR ''}'']"
  by (intro conjI; code_simp)

text \<open>
  C3, as amended. For a record text with a closing marker and new fields that are not
  empty, the merger keeps every character of the text in place, but for this: when
  the last line before the marker has content and its last character that is not white
  space is no comma, the white space at the end of that line is dropped and a comma is
  put there. The only other change is the insertion, before the marker, of a newline
  and of the new field lines, each followed by a newline.
\<close>

theorem merger_keeps_text:
  assumes "raw = pre @ line @ [nl, CHR ''}''] @ rest"
    and "pre = [] \<or> last pre = nl"
    and "nl \<notin> set line"
    and "\<not> sublist [nl, CHR ''}''] rest"
    and "new_fields \<noteq> []"
  shows "prefix (py_rstrip line) line
     \<and> (\<forall>c \<in> set (drop (length (py_rstrip line)) line). is_space c)
     \<and> (let kept = (if (\<exists>c \<in> set line. \<not> is_space c) \<and> \<not> suffix '','' (py_rstrip line)
                     then py_rstrip line @ '','' else line)
        in inject_fields raw new_fields
             = pre @ kept @ [nl] @ concat (map (\<lambda>(name, v). field_line name v @ [nl]) new_fields)
                 @ [nl, CHR ''}''] @ rest
         \<and> inject_field raw name v
             = pre @ kept @ [nl] @ (field_line name v @ [nl]) @ [nl, CHR ''}''] @ rest)"
proof -
  have j: "py_join [nl] (map (\<lambda>(name, v). field_line name v) new_fields) @ [nl]
      = concat (map (\<lambda>(name, v). field_line name v @ [nl]) new_fields)"
    using py_join_nl [OF assms(5), of "\<lambda>(name, v). field_line name v"]
    by (simp add: case_prod_unfold)
  show ?thesis
    using inject_fields_form [OF assms(1-4), of new_fields] inject_field_form [OF assms(1-4), of name v]
      py_rstrip_prefix [of line] j
    by (simp add: Let_def)
qed

theorem merger_keeps_text_witness:
  "last (''@misc{k,'' @ [nl]) = nl
   \<and> nl \<notin> set (''  title = {T}'' @ [CHR 0x09])
   \<and> [(''doi'', ''10.1/x'')] \<noteq> []
   \<and> py_rstrip (''  title = {T}'' @ [CHR 0x09]) = ''  title = {T}''
   \<and> inject_fields (''@misc{k,'' @ [nl] @ (''  title = {T}'' @ [CHR 0x09]) @ [nl, CHR ''}''])
         [(''doi'', ''10.1/x'')]
      = ''@misc{k,'' @ [nl] @ ''  title = {T},'' @ [nl] @ ''  doi         = {10.1/x},'' @ [nl] @ [nl, CHR ''}'']
   \<and> inject_field (''@misc{k,'' @ [nl] @ (''  title = {T}'' @ [CHR 0x09]) @ [nl, CHR ''}''])
         ''preview'' ''k.png''
      = ''@misc{k,'' @ [nl] @ ''  title = {T},'' @ [nl] @ ''  preview     = {k.png},'' @ [nl] @ [nl, CHR ''}'']"
proof -
  let ?line = "''  title = {T}'' @ [CHR 0x09]"
  have h1: "''@misc{k,'' @ [nl] @ ?line @ [nl, CHR ''}'']
      = (''@misc{k,'' @ [nl]) @ ?line @ [nl, CHR ''}''] @ []" by simp
  have h2: "(''@misc{k,'' @ [nl]) = [] \<or> last (''@misc{k,'' @ [nl]) = nl" by simp
  have h3: "nl \<notin> set ?line" by simp
  have h4: "\<not> sublist [nl, CHR ''}''] []" by simp
  have h5: "[(''doi'', ''10.1/x'')] \<noteq> []" by simp
  have t: "\<not> is_space CHR ''t''" by (simp add: is_space_def)
  have ex: "\<exists>c \<in> set ?line. \<not> is_space c" using t by simp
  have rs: "py_rstrip ?line = ''  title = {T}''" by (simp add: py_rstrip_def is_space_def)
  have ns: "\<not> suffix '','' (py_rstrip ?line)" unfolding rs by (simp add: suffix_def)
  have fl: "field_line ''doi'' ''10.1/x'' = ''  doi         = {10.1/x},''"
    "field_line ''preview'' ''k.png'' = ''  preview     = {k.png},''" by code_simp+
  have cond: "((\<exists>c \<in> set ?line. \<not> is_space c) \<and> \<not> suffix '','' ''  title = {T}'') = True"
    using ex ns unfolding rs by blast
  note T = merger_keeps_text [OF h1 h2 h3 h4 h5, of "''preview''" "''k.png''",
      unfolded Let_def rs cond if_True]
  have a: "inject_fields (''@misc{k,'' @ [nl] @ ?line @ [nl, CHR ''}'']) [(''doi'', ''10.1/x'')]
      = ''@misc{k,'' @ [nl] @ ''  title = {T},'' @ [nl] @ ''  doi         = {10.1/x},'' @ [nl] @ [nl, CHR ''}'']"
    using T [THEN conjunct2, THEN conjunct2, THEN conjunct1] by (simp add: fl)
  have b: "inject_field (''@misc{k,'' @ [nl] @ ?line @ [nl, CHR ''}'']) ''preview'' ''k.png''
      = ''@misc{k,'' @ [nl] @ ''  title = {T},'' @ [nl] @ ''  preview     = {k.png},'' @ [nl] @ [nl, CHR ''}'']"
    using T [THEN conjunct2, THEN conjunct2, THEN conjunct2] by (simp add: fl)
  have l: "last (''@misc{k,'' @ [nl]) = nl" by simp
  show ?thesis using l h3 h5 rs a b by (intro conjI)
qed

text \<open>
  C3 as stated fails: a tab at the end of the last field line is lost when the comma is
  appended, so the text is no subsequence of the result.
\<close>

theorem merger_drops_trailing_space_counterexample:
  "\<not> subseq (''@misc{k,'' @ [nl] @ ''  title = {T}'' @ [CHR 0x09] @ [nl, CHR ''}''])
       (inject_fields (''@misc{k,'' @ [nl] @ ''  title = {T}'' @ [CHR 0x09] @ [nl, CHR ''}''])
          [(''doi'', ''10.1/x'')])
   \<and> inject_fields (''@misc{k,'' @ [nl] @ ''  title = {T}'' @ [CHR 0x09] @ [nl, CHR ''}''])
          [(''doi'', ''10.1/x'')]
      = ''@misc{k,'' @ [nl] @ ''  title = {T},'' @ [nl] @ ''  doi         = {10.1/x},'' @ [nl] @ [nl, CHR ''}'']"
  by code_simp


section \<open>Facts about the two runs\<close>






lemma main_thumb_no_directory:
  assumes "bib_file W = Holds text" and "mkdir_preview sv (outside W) = (False, w0)"
  shows "main_thumb sv targs W
     = \<lparr>exit_status = 1, world_after = W\<lparr>outside := w0\<rparr>, printed = [], patches = []\<rparr>"
  using assms by (simp add: main_thumb_def)

lemma main_thumb_no_key:
  assumes "bib_file W = Holds text" and "mkdir_preview sv (outside W) = (True, w0)"
    and "parse_entries_thumb text = Inl err"
  shows "main_thumb sv targs W
     = \<lparr>exit_status = 1, world_after = W\<lparr>outside := w0\<rparr>, printed = [], patches = []\<rparr>"
  using assms by (simp add: main_thumb_def)



lemma build_entries_Inr:
  assumes "\<forall>(s, e) \<in> set ms. key_search (take (e - s) (drop s text)) \<noteq> None"
  shows "build_entries text ms
     = Inr (map (\<lambda>(s, e).
            let raw = take (e - s) (drop s text)
            in \<lparr>e_key = (case key_search raw of Some k \<Rightarrow> k | None \<Rightarrow> ''unknown''),
                e_raw = raw, e_fields = fields_of raw, e_span = (s, e)\<rparr>) ms)"
  using assms by (induction ms) (auto simp: Let_def)




lemma main_enrich_exit: "bib_file W = Holds text \<Longrightarrow> exit_status (main_enrich lk args env_key W) = 0"
  by (auto simp: main_enrich_def Let_def split: prod.splits)

lemma Full_text_not_printed_thumb: "Full_text t \<notin> set (printed (main_thumb sv targs W))"
  by (auto simp: main_thumb_def Let_def split: file_state.splits sum.splits prod.splits)

section \<open>The runs: idempotence, lookups, dry run, exit status\<close>




text \<open>
  C7, as amended. For every record, the Altmetric lookup is attempted if and only if
  the field \<^verbatim>\<open>altmetric\<close> is missing, the skip option is not set, and the DOI in hand is
  not empty: the value of the record's own \<^verbatim>\<open>doi\<close> field when the record has that field,
  and otherwise the DOI that CrossRef returned in this run.
\<close>

theorem altmetric_attempted_iff:
  "(\<exists>d k. Altmetric_call d k \<in> set (fst (snd (enrich_entry lk args env_key w entry))))
     \<longleftrightarrow> (e_fields entry ''altmetric'' = None \<and> \<not> no_altmetric args
          \<and> (case e_fields entry ''doi'' of
                Some d \<Rightarrow> d \<noteq> []
              | None \<Rightarrow> truthy (fst (fst (crossref_lookup lk w (title_of entry) (first_author_of entry))))))"
proof (cases "e_fields entry ''doi''")
  case None
  obtain cr_doi cr_url w' where cr:
    "crossref_lookup lk w (title_of entry) (first_author_of entry) = ((cr_doi, cr_url), w')"
    by (metis surj_pair)
  obtain aid w'' where al: "altmetric_lookup lk w' (the cr_doi)
      (if altmetric_key args \<noteq> [] then altmetric_key args else env_key) = (aid, w'')"
    by (metis surj_pair)
  show ?thesis using None cr al
    by (auto simp: enrich_entry_def Let_def truthy_def split: option.splits)
next
  case (Some d)
  obtain cr_doi cr_url w' where cr:
    "crossref_lookup lk w (title_of entry) (first_author_of entry) = ((cr_doi, cr_url), w')"
    by (metis surj_pair)
  obtain aid w'' where al: "altmetric_lookup lk w' d
      (if altmetric_key args \<noteq> [] then altmetric_key args else env_key) = (aid, w'')"
    by (metis surj_pair)
  obtain aid2 w2 where al2: "altmetric_lookup lk w d
      (if altmetric_key args \<noteq> [] then altmetric_key args else env_key) = (aid2, w2)"
    by (metis surj_pair)
  show ?thesis using Some cr al al2
    by (auto simp: enrich_entry_def Let_def truthy_def split: option.splits)
qed

text \<open>
  C7 as stated fails on a record whose \<^verbatim>\<open>doi\<close> field is there and empty. The field
  \<^verbatim>\<open>altmetric\<close> is missing, the skip option is not set, the \<^verbatim>\<open>doi\<close> field was present
  at scan time, and CrossRef, asked because \<^verbatim>\<open>html\<close> is missing, returns a DOI in this
  run; the only lookup made is the CrossRef one.
\<close>

theorem altmetric_skipped_with_empty_doi_counterexample:
  "e_fields (hd (parse_entries (''@misc{k,'' @ [nl] @ ''  title = {T},'' @ [nl] @ ''  doi = {},'' @ [nl, CHR ''}'']))) ''altmetric'' = None
   \<and> \<not> no_altmetric \<lparr>dry_run = False, no_altmetric = False, altmetric_key = []\<rparr>
   \<and> e_fields (hd (parse_entries (''@misc{k,'' @ [nl] @ ''  title = {T},'' @ [nl] @ ''  doi = {},'' @ [nl, CHR ''}'']))) ''doi'' = Some []
   \<and> fst (snd (enrich_entry
        \<lparr>crossref_lookup = (\<lambda>w t a. ((Some ''10.1/x'', Some ''u''), w)), altmetric_lookup = (\<lambda>w d k. (Some ''1'', w))\<rparr>
        \<lparr>dry_run = False, no_altmetric = False, altmetric_key = []\<rparr> [] ()
        (hd (parse_entries (''@misc{k,'' @ [nl] @ ''  title = {T},'' @ [nl] @ ''  doi = {},'' @ [nl, CHR ''}''])))))
      = [Crossref_call ''T'' []]"
  by (intro conjI; code_simp)

text \<open>
  C8, as amended. With the dry-run flag set, neither script modifies the bibliography
  file, for any input. After the progress lines of the loop, the enricher on a file
  that can be read prints a header and the full text with all patches applied when at
  least one patch was produced, and \<^verbatim>\<open>Nothing to update.\<close> when none was. The thumbnail
  fetcher never prints the text: after its progress lines it prints the notice
  \<^verbatim>\<open>(dry-run: bib not written)\<close> when at least one patch was produced, and nothing when
  none was.
\<close>

theorem dry_run_leaves_file:
  assumes "dry_run args" and "dry_run_t targs"
  shows "bib_file (world_after (main_enrich lk args env_key W)) = bib_file W
     \<and> (\<forall>text. bib_file W = Holds text \<longrightarrow>
          printed (main_enrich lk args env_key W)
            = (if patches (main_enrich lk args env_key W) = [] then [Nothing_to_update]
               else [Dry_run_header,
                     Full_text (apply_replacements text (patches (main_enrich lk args env_key W)))]))
     \<and> bib_file (world_after (main_thumb sv targs W)) = bib_file W
     \<and> printed (main_thumb sv targs W)
         = (if patches (main_thumb sv targs W) = [] then [] else [Dry_run_notice])
     \<and> (\<forall>t. Full_text t \<notin> set (printed (main_thumb sv targs W)))"
proof -
  have a: "bib_file (world_after (main_enrich lk args env_key W)) = bib_file W"
    using assms(1) by (auto simp: main_enrich_def Let_def split: file_state.splits prod.splits)
  have b: "printed (main_enrich lk args env_key W)
            = (if patches (main_enrich lk args env_key W) = [] then [Nothing_to_update]
               else [Dry_run_header,
                     Full_text (apply_replacements t (patches (main_enrich lk args env_key W)))])"
    if "bib_file W = Holds t" for t
    using assms(1) that by (auto simp: main_enrich_def Let_def split: prod.splits)
  have c: "bib_file (world_after (main_thumb sv targs W)) = bib_file W"
    using assms(2)
    by (auto simp: main_thumb_def Let_def split: file_state.splits sum.splits prod.splits)
  have d: "printed (main_thumb sv targs W)
         = (if patches (main_thumb sv targs W) = [] then [] else [Dry_run_notice])"
    using assms(2)
    by (auto simp: main_thumb_def Let_def split: file_state.splits sum.splits prod.splits)
  show ?thesis using a b c d Full_text_not_printed_thumb by blast
qed

theorem dry_run_leaves_file_witness:
  "dry_run \<lparr>dry_run = True, no_altmetric = False, altmetric_key = []\<rparr> \<and> dry_run_t \<lparr>dry_run_t = True, force = False\<rparr>
   \<and> bib_file (world_after (main_enrich \<lparr>crossref_lookup = (\<lambda>w t a. ((Some ''10.1101/x'', Some ''https://u''), w)), altmetric_lookup = (\<lambda>w d k. (None, w))\<rparr> \<lparr>dry_run = True, no_altmetric = False, altmetric_key = []\<rparr> [] \<lparr>bib_file = Holds (''@article{k,'' @ [nl] @ ''  journal = {bioRxiv},'' @ [nl] @ ''  doi = {10.1101/x},'' @ [nl, CHR ''}'']), outside = ()\<rparr>)) = Holds (''@article{k,'' @ [nl] @ ''  journal = {bioRxiv},'' @ [nl] @ ''  doi = {10.1101/x},'' @ [nl, CHR ''}''])
   \<and> printed (main_enrich \<lparr>crossref_lookup = (\<lambda>w t a. ((Some ''10.1101/x'', Some ''https://u''), w)), altmetric_lookup = (\<lambda>w d k. (None, w))\<rparr> \<lparr>dry_run = True, no_altmetric = False, altmetric_key = []\<rparr> [] \<lparr>bib_file = Holds (''@article{k,'' @ [nl] @ ''  journal = {bioRxiv},'' @ [nl] @ ''  doi = {10.1101/x},'' @ [nl, CHR ''}'']), outside = ()\<rparr>) = [Dry_run_header, Full_text (''@article{k,'' @ [nl] @ ''  journal = {bioRxiv},'' @ [nl] @ ''  doi = {10.1101/x},'' @ [nl] @ ''  html        = {https://u},'' @ [nl] @ [nl, CHR ''}''])]
   \<and> bib_file (world_after (main_thumb \<lparr>mkdir_preview = (\<lambda>w. (True, w)), dest_exists = (\<lambda>w f. False), download_image = (\<lambda>w u d. (None, w)), fetch_science = (\<lambda>w d. (None, w)), fetch_url = (\<lambda>w u. (None, w)), extract_og_image = (\<lambda>h. None), url_suffix = (\<lambda>u. ''.png''), url_origin = (\<lambda>u. [])\<rparr> \<lparr>dry_run_t = True, force = False\<rparr> \<lparr>bib_file = Holds (''@article{k,'' @ [nl] @ ''  journal = {bioRxiv},'' @ [nl] @ ''  doi = {10.1101/x},'' @ [nl, CHR ''}'']), outside = ()\<rparr>)) = Holds (''@article{k,'' @ [nl] @ ''  journal = {bioRxiv},'' @ [nl] @ ''  doi = {10.1101/x},'' @ [nl, CHR ''}''])
   \<and> printed (main_thumb \<lparr>mkdir_preview = (\<lambda>w. (True, w)), dest_exists = (\<lambda>w f. False), download_image = (\<lambda>w u d. (None, w)), fetch_science = (\<lambda>w d. (None, w)), fetch_url = (\<lambda>w u. (None, w)), extract_og_image = (\<lambda>h. None), url_suffix = (\<lambda>u. ''.png''), url_origin = (\<lambda>u. [])\<rparr> \<lparr>dry_run_t = True, force = False\<rparr> \<lparr>bib_file = Holds (''@article{k,'' @ [nl] @ ''  journal = {bioRxiv},'' @ [nl] @ ''  doi = {10.1101/x},'' @ [nl, CHR ''}'']), outside = ()\<rparr>) = [Dry_run_notice]"
proof -
  have h1: "dry_run \<lparr>dry_run = True, no_altmetric = False, altmetric_key = []\<rparr>" by simp
  have h2: "dry_run_t \<lparr>dry_run_t = True, force = False\<rparr>" by simp
  have b: "bib_file \<lparr>bib_file = Holds (''@article{k,'' @ [nl] @ ''  journal = {bioRxiv},'' @ [nl] @ ''  doi = {10.1101/x},'' @ [nl, CHR ''}'']), outside = ()\<rparr> = Holds (''@article{k,'' @ [nl] @ ''  journal = {bioRxiv},'' @ [nl] @ ''  doi = {10.1101/x},'' @ [nl, CHR ''}''])" by simp
  have p: "patches (main_enrich \<lparr>crossref_lookup = (\<lambda>w t a. ((Some ''10.1101/x'', Some ''https://u''), w)), altmetric_lookup = (\<lambda>w d k. (None, w))\<rparr> \<lparr>dry_run = True, no_altmetric = False, altmetric_key = []\<rparr> [] \<lparr>bib_file = Holds (''@article{k,'' @ [nl] @ ''  journal = {bioRxiv},'' @ [nl] @ ''  doi = {10.1101/x},'' @ [nl, CHR ''}'']), outside = ()\<rparr>) = [((0, 57), (''@article{k,'' @ [nl] @ ''  journal = {bioRxiv},'' @ [nl] @ ''  doi = {10.1101/x},'' @ [nl] @ ''  html        = {https://u},'' @ [nl] @ [nl, CHR ''}'']))]" by code_simp
  have ap: "apply_replacements (''@article{k,'' @ [nl] @ ''  journal = {bioRxiv},'' @ [nl] @ ''  doi = {10.1101/x},'' @ [nl, CHR ''}'']) [((0, 57), (''@article{k,'' @ [nl] @ ''  journal = {bioRxiv},'' @ [nl] @ ''  doi = {10.1101/x},'' @ [nl] @ ''  html        = {https://u},'' @ [nl] @ [nl, CHR ''}'']))] = (''@article{k,'' @ [nl] @ ''  journal = {bioRxiv},'' @ [nl] @ ''  doi = {10.1101/x},'' @ [nl] @ ''  html        = {https://u},'' @ [nl] @ [nl, CHR ''}''])" by code_simp
  have pt: "patches (main_thumb \<lparr>mkdir_preview = (\<lambda>w. (True, w)), dest_exists = (\<lambda>w f. False), download_image = (\<lambda>w u d. (None, w)), fetch_science = (\<lambda>w d. (None, w)), fetch_url = (\<lambda>w u. (None, w)), extract_og_image = (\<lambda>h. None), url_suffix = (\<lambda>u. ''.png''), url_origin = (\<lambda>u. [])\<rparr> \<lparr>dry_run_t = True, force = False\<rparr> \<lparr>bib_file = Holds (''@article{k,'' @ [nl] @ ''  journal = {bioRxiv},'' @ [nl] @ ''  doi = {10.1101/x},'' @ [nl, CHR ''}'']), outside = ()\<rparr>) = [((0, 57), (''@article{k,'' @ [nl] @ ''  journal = {bioRxiv},'' @ [nl] @ ''  doi = {10.1101/x},'' @ [nl] @ ''  preview     = {biorxiv_logo.png},'' @ [nl] @ [nl, CHR ''}'']))]" by code_simp
  note T = dry_run_leaves_file [OF h1 h2, of "\<lparr>crossref_lookup = (\<lambda>w t a. ((Some ''10.1101/x'', Some ''https://u''), w)), altmetric_lookup = (\<lambda>w d k. (None, w))\<rparr>" "[]" "\<lparr>bib_file = Holds (''@article{k,'' @ [nl] @ ''  journal = {bioRxiv},'' @ [nl] @ ''  doi = {10.1101/x},'' @ [nl, CHR ''}'']), outside = ()\<rparr>" "\<lparr>mkdir_preview = (\<lambda>w. (True, w)), dest_exists = (\<lambda>w f. False), download_image = (\<lambda>w u d. (None, w)), fetch_science = (\<lambda>w d. (None, w)), fetch_url = (\<lambda>w u. (None, w)), extract_og_image = (\<lambda>h. None), url_suffix = (\<lambda>u. ''.png''), url_origin = (\<lambda>u. [])\<rparr>"]
  have c1: "bib_file (world_after (main_enrich \<lparr>crossref_lookup = (\<lambda>w t a. ((Some ''10.1101/x'', Some ''https://u''), w)), altmetric_lookup = (\<lambda>w d k. (None, w))\<rparr> \<lparr>dry_run = True, no_altmetric = False, altmetric_key = []\<rparr> [] \<lparr>bib_file = Holds (''@article{k,'' @ [nl] @ ''  journal = {bioRxiv},'' @ [nl] @ ''  doi = {10.1101/x},'' @ [nl, CHR ''}'']), outside = ()\<rparr>)) = Holds (''@article{k,'' @ [nl] @ ''  journal = {bioRxiv},'' @ [nl] @ ''  doi = {10.1101/x},'' @ [nl, CHR ''}''])"
    using T [THEN conjunct1] b by simp
  have c2: "printed (main_enrich \<lparr>crossref_lookup = (\<lambda>w t a. ((Some ''10.1101/x'', Some ''https://u''), w)), altmetric_lookup = (\<lambda>w d k. (None, w))\<rparr> \<lparr>dry_run = True, no_altmetric = False, altmetric_key = []\<rparr> [] \<lparr>bib_file = Holds (''@article{k,'' @ [nl] @ ''  journal = {bioRxiv},'' @ [nl] @ ''  doi = {10.1101/x},'' @ [nl, CHR ''}'']), outside = ()\<rparr>) = [Dry_run_header, Full_text (''@article{k,'' @ [nl] @ ''  journal = {bioRxiv},'' @ [nl] @ ''  doi = {10.1101/x},'' @ [nl] @ ''  html        = {https://u},'' @ [nl] @ [nl, CHR ''}''])]"
    using T [THEN conjunct2, THEN conjunct1, rule_format, OF b] unfolding p ap by simp
  have c3: "bib_file (world_after (main_thumb \<lparr>mkdir_preview = (\<lambda>w. (True, w)), dest_exists = (\<lambda>w f. False), download_image = (\<lambda>w u d. (None, w)), fetch_science = (\<lambda>w d. (None, w)), fetch_url = (\<lambda>w u. (None, w)), extract_og_image = (\<lambda>h. None), url_suffix = (\<lambda>u. ''.png''), url_origin = (\<lambda>u. [])\<rparr> \<lparr>dry_run_t = True, force = False\<rparr> \<lparr>bib_file = Holds (''@article{k,'' @ [nl] @ ''  journal = {bioRxiv},'' @ [nl] @ ''  doi = {10.1101/x},'' @ [nl, CHR ''}'']), outside = ()\<rparr>)) = Holds (''@article{k,'' @ [nl] @ ''  journal = {bioRxiv},'' @ [nl] @ ''  doi = {10.1101/x},'' @ [nl, CHR ''}''])"
    using T [THEN conjunct2, THEN conjunct2, THEN conjunct1] b by simp
  have c4: "printed (main_thumb \<lparr>mkdir_preview = (\<lambda>w. (True, w)), dest_exists = (\<lambda>w f. False), download_image = (\<lambda>w u d. (None, w)), fetch_science = (\<lambda>w d. (None, w)), fetch_url = (\<lambda>w u. (None, w)), extract_og_image = (\<lambda>h. None), url_suffix = (\<lambda>u. ''.png''), url_origin = (\<lambda>u. [])\<rparr> \<lparr>dry_run_t = True, force = False\<rparr> \<lparr>bib_file = Holds (''@article{k,'' @ [nl] @ ''  journal = {bioRxiv},'' @ [nl] @ ''  doi = {10.1101/x},'' @ [nl, CHR ''}'']), outside = ()\<rparr>) = [Dry_run_notice]"
    using T [THEN conjunct2, THEN conjunct2, THEN conjunct2, THEN conjunct1] unfolding pt by simp
  show ?thesis using h1 h2 c1 c2 c3 c4 by (intro conjI)
qed

text \<open>
  C8 as stated fails for the thumbnail fetcher: in a dry run that produces a patch for
  a bioRxiv record, all that the last stage prints is the notice
  \<^verbatim>\<open>(dry-run: bib not written)\<close>.
\<close>

theorem thumbnail_dry_run_prints_notice_counterexample:
  "dry_run_t \<lparr>dry_run_t = True, force = False\<rparr>
   \<and> patches (main_thumb \<lparr>mkdir_preview = (\<lambda>w. (True, w)), dest_exists = (\<lambda>w f. False), download_image = (\<lambda>w u d. (None, w)), fetch_science = (\<lambda>w d. (None, w)), fetch_url = (\<lambda>w u. (None, w)), extract_og_image = (\<lambda>h. None), url_suffix = (\<lambda>u. ''.png''), url_origin = (\<lambda>u. [])\<rparr> \<lparr>dry_run_t = True, force = False\<rparr> \<lparr>bib_file = Holds (''@article{k,'' @ [nl] @ ''  journal = {bioRxiv},'' @ [nl] @ ''  doi = {10.1101/x},'' @ [nl, CHR ''}'']), outside = ()\<rparr>) = [((0, 57), (''@article{k,'' @ [nl] @ ''  journal = {bioRxiv},'' @ [nl] @ ''  doi = {10.1101/x},'' @ [nl] @ ''  preview     = {biorxiv_logo.png},'' @ [nl] @ [nl, CHR ''}'']))]
   \<and> printed (main_thumb \<lparr>mkdir_preview = (\<lambda>w. (True, w)), dest_exists = (\<lambda>w f. False), download_image = (\<lambda>w u d. (None, w)), fetch_science = (\<lambda>w d. (None, w)), fetch_url = (\<lambda>w u. (None, w)), extract_og_image = (\<lambda>h. None), url_suffix = (\<lambda>u. ''.png''), url_origin = (\<lambda>u. [])\<rparr> \<lparr>dry_run_t = True, force = False\<rparr> \<lparr>bib_file = Holds (''@article{k,'' @ [nl] @ ''  journal = {bioRxiv},'' @ [nl] @ ''  doi = {10.1101/x},'' @ [nl, CHR ''}'']), outside = ()\<rparr>) = [Dry_run_notice]"
  by code_simp

text \<open>
  C9. The bibliography file exists and holds one entry with no comma after its key, as
  an \<^verbatim>\<open>@string\<close> entry has none. The scanner of the thumbnail fetcher raises
  \<^verbatim>\<open>AttributeError\<close>, nothing catches it, and the process ends with status 1; the
  enricher ends with status 0 on the same file.
\<close>

theorem thumbnail_fetcher_crashes_on_keyless_entry:
  "parse_entries_thumb (''@string{x = y'' @ [nl, CHR ''}'']) = Inl AttributeError
   \<and> exit_status (main_thumb sv targs \<lparr>bib_file = Holds (''@string{x = y'' @ [nl, CHR ''}'']), outside = w\<rparr>) = 1
   \<and> exit_status (main_enrich lk args env_key \<lparr>bib_file = Holds (''@string{x = y'' @ [nl, CHR ''}'']), outside = w\<rparr>) = 0"
proof -
  have sp: "finditer_entries 0 (''@string{x = y'' @ [nl, CHR ''}'']) = [(0, 15)]"
    by code_simp
  have k: "key_search (take (15 - 0) (drop 0 (''@string{x = y'' @ [nl, CHR ''}'']))) = None"
    by code_simp
  have p: "parse_entries_thumb (''@string{x = y'' @ [nl, CHR ''}'']) = Inl AttributeError"
    unfolding parse_entries_thumb_def sp
    by (simp only: build_entries.simps Let_def k option.case)
  have b: "bib_file \<lparr>bib_file = Holds (''@string{x = y'' @ [nl, CHR ''}'']), outside = w\<rparr> = Holds (''@string{x = y'' @ [nl, CHR ''}''])"
    by simp
  obtain made w0 where mk: "mkdir_preview sv (outside \<lparr>bib_file = Holds (''@string{x = y'' @ [nl, CHR ''}'']), outside = w\<rparr>) = (made, w0)"
    by (cases "mkdir_preview sv (outside \<lparr>bib_file = Holds (''@string{x = y'' @ [nl, CHR ''}'']), outside = w\<rparr>)")
  have "exit_status (main_thumb sv targs \<lparr>bib_file = Holds (''@string{x = y'' @ [nl, CHR ''}'']), outside = w\<rparr>) = 1"
  proof (cases made)
    case True
    with mk have "mkdir_preview sv (outside \<lparr>bib_file = Holds (''@string{x = y'' @ [nl, CHR ''}'']), outside = w\<rparr>) = (True, w0)"
      by simp
    from main_thumb_no_key [OF b this p] show ?thesis by simp
  next
    case False
    with mk have "mkdir_preview sv (outside \<lparr>bib_file = Holds (''@string{x = y'' @ [nl, CHR ''}'']), outside = w\<rparr>) = (False, w0)"
      by simp
    from main_thumb_no_directory [OF b this] show ?thesis by simp
  qed
  moreover have "exit_status (main_enrich lk args env_key \<lparr>bib_file = Holds (''@string{x = y'' @ [nl, CHR ''}'']), outside = w\<rparr>) = 0"
    by (rule main_enrich_exit [OF b])
  ultimately show ?thesis using p by simp
qed
section \<open>Facts about the scanner\<close>

text \<open>
  The classes on characters beyond ASCII: the no-break space and the next-line character
  are white space, an accented letter is a word character and has a small letter, the
  multiplication sign is neither. So the entry pattern matches the two entries below,
  and \<^verbatim>\<open>rstrip\<close> drops a no-break space at the end of a line.
\<close>

lemma classes_beyond_ascii:
  "is_space (CHR 0xA0)" "is_space (CHR 0x85)" "is_word (CHR 0xE9)" "\<not> is_space (CHR 0xE9)"
  "\<not> is_word (CHR 0xD7)" "\<not> is_space (CHR 0xD7)" "py_lower [CHR 0xC9, CHR 0xD7] = [CHR 0xE9, CHR 0xD7]"
  by code_simp+

lemma scanner_beyond_ascii:
  "finditer_entries 0 (''@vid'' @ [CHR 0xE9] @ ''o{k,'' @ [nl, CHR ''}'']) = [(0, 11)]"
  "finditer_entries 0 (''@misc'' @ [CHR 0xA0] @ ''{k,'' @ [nl, CHR ''}'']) = [(0, 11)]"
  "py_rstrip (''  title = {T}'' @ [CHR 0xA0]) = ''  title = {T}''"
  by code_simp+

lemma not_word_space: "is_word c \<Longrightarrow> \<not> is_space c"
  by (auto simp: is_word_def is_space_def Let_def)

lemma brace_classes: "\<not> is_word CHR ''{''" "\<not> is_space CHR ''{''" "\<not> is_word CHR ''@''" "\<not> is_space CHR ''@''"
  by (simp_all add: is_word_def is_space_def)

lemma match_header_iff:
  "match_header s = Some h \<longleftrightarrow>
     (\<exists>w sp rest. s = CHR ''@'' # w @ sp @ CHR ''{'' # rest \<and> w \<noteq> [] \<and> (\<forall>c \<in> set w. is_word c)
        \<and> (\<forall>c \<in> set sp. is_space c) \<and> h = length w + length sp + 2)"
proof
  assume m: "match_header s = Some h"
  then obtain r where s: "s = CHR ''@'' # r"
    by (cases s) (auto simp: match_header_def split: if_splits)
  let ?w = "takeWhile is_word r" and ?r1 = "dropWhile is_word r"
  let ?sp = "takeWhile is_space ?r1" and ?r2 = "dropWhile is_space ?r1"
  from m s obtain rest where r2: "?r2 = CHR ''{'' # rest" and w: "?w \<noteq> []"
    and h: "h = 1 + length ?w + length ?sp + 1"
    by (auto simp: match_header_def Let_def split: if_splits list.splits)
  have "r = ?w @ ?r1" by simp
  also have "?r1 = ?sp @ ?r2" by simp
  finally have "s = CHR ''@'' # ?w @ ?sp @ CHR ''{'' # rest" using s r2 by simp
  moreover have "\<forall>c \<in> set ?w. is_word c" by (auto dest: set_takeWhileD)
  moreover have "\<forall>c \<in> set ?sp. is_space c" by (auto dest: set_takeWhileD)
  ultimately show "\<exists>w sp rest. s = CHR ''@'' # w @ sp @ CHR ''{'' # rest \<and> w \<noteq> [] \<and> (\<forall>c \<in> set w. is_word c)
        \<and> (\<forall>c \<in> set sp. is_space c) \<and> h = length w + length sp + 2"
    using w h by (intro exI [of _ ?w] exI [of _ ?sp] exI [of _ rest]) simp
next
  assume "\<exists>w sp rest. s = CHR ''@'' # w @ sp @ CHR ''{'' # rest \<and> w \<noteq> [] \<and> (\<forall>c \<in> set w. is_word c)
        \<and> (\<forall>c \<in> set sp. is_space c) \<and> h = length w + length sp + 2"
  then obtain w sp rest where s: "s = CHR ''@'' # w @ sp @ CHR ''{'' # rest" and w: "w \<noteq> []"
    and ww: "\<forall>c \<in> set w. is_word c" and ss: "\<forall>c \<in> set sp. is_space c"
    and h: "h = length w + length sp + 2" by blast
  have nw: "sp @ CHR ''{'' # rest = [] \<or> \<not> is_word (hd (sp @ CHR ''{'' # rest))"
    using ss not_word_space brace_classes by (cases sp) auto
  have tw: "takeWhile is_word (w @ sp @ CHR ''{'' # rest) = w"
    using ww nw by (cases "sp @ CHR ''{'' # rest") (auto simp: takeWhile_append2 takeWhile_tail)
  have dw: "dropWhile is_word (w @ sp @ CHR ''{'' # rest) = sp @ CHR ''{'' # rest"
    using ww nw by (cases "sp @ CHR ''{'' # rest") (auto simp: dropWhile_append2)
  have ts: "takeWhile is_space (sp @ CHR ''{'' # rest) = sp"
    using ss brace_classes by (simp add: takeWhile_tail)
  have ds: "dropWhile is_space (sp @ CHR ''{'' # rest) = CHR ''{'' # rest"
    using ss brace_classes by (simp add: dropWhile_append2)
  show "match_header s = Some h"
    unfolding match_header_def s by (simp add: Let_def tw dw ts ds w h)
qed

lemma match_header_append:
  assumes "match_header s = Some h"
  shows "match_header (take h s @ z) = Some h"
proof -
  from assms obtain w sp rest where s: "s = CHR ''@'' # w @ sp @ CHR ''{'' # rest" and w: "w \<noteq> []"
    and ww: "\<forall>c \<in> set w. is_word c" and ss: "\<forall>c \<in> set sp. is_space c"
    and h: "h = length w + length sp + 2" by (auto simp: match_header_iff)
  have "take h s = CHR ''@'' # w @ sp @ [CHR ''{'']" unfolding s h by simp
  then have "take h s @ z = CHR ''@'' # w @ sp @ CHR ''{'' # z" by simp
  then show ?thesis using w ww ss h by (subst match_header_iff) blast
qed

lemma match_header_prefix:
  assumes "match_header s = Some h"
  shows "h \<le> length s \<and> 2 \<le> h \<and> hd s = CHR ''@'' \<and> s \<noteq> [] \<and> last (take h s) = CHR ''{''"
proof -
  from assms obtain w sp rest where s: "s = CHR ''@'' # w @ sp @ CHR ''{'' # rest"
    and h: "h = length w + length sp + 2" by (auto simp: match_header_iff)
  have "take h s = CHR ''@'' # w @ sp @ [CHR ''{'']" unfolding s h by simp
  then show ?thesis using s h by simp
qed

lemma no_close_iff: "no_close s \<longleftrightarrow> \<not> sublist [nl, CHR ''}''] s"
proof (induction s rule: no_close.induct)
  case (1 a b r)
  have "sublist [nl, CHR ''}''] (a # b # r)
      \<longleftrightarrow> prefix [nl, CHR ''}''] (a # b # r) \<or> sublist [nl, CHR ''}''] (b # r)"
    by (simp add: sublist_Cons_right)
  with 1 show ?case by auto
qed (auto simp: sublist_Cons_right)

lemma no_close_Cons_iff:
  "no_close (c # s) \<longleftrightarrow> no_close s \<and> \<not> (c = nl \<and> s \<noteq> [] \<and> hd s = CHR ''}'')"
  by (cases s) auto

lemma no_close_append:
  "no_close (u @ v) \<longleftrightarrow>
     no_close u \<and> no_close v \<and> \<not> (u \<noteq> [] \<and> v \<noteq> [] \<and> last u = nl \<and> hd v = CHR ''}'')"
proof (induction u)
  case Nil
  then show ?case by simp
next
  case (Cons c u)
  show ?case
  proof (cases u)
    case Nil
    then show ?thesis by (auto simp: no_close_Cons_iff)
  next
    case (Cons d u')
    with Cons.IH show ?thesis by (auto simp: no_close_Cons_iff)
  qed
qed

lemma no_close_no_nl: "nl \<notin> set s \<Longrightarrow> no_close s"
  by (induction s rule: no_close.induct) auto

lemma no_close_Cons: "no_close (c # s) \<Longrightarrow> no_close s"
  by (cases s) auto

lemma find_close_Some:
  "find_close s = Some n \<Longrightarrow>
     CHR ''@'' \<notin> set (take n s) \<and> no_close (take n s @ [nl]) \<and> prefix [nl, CHR ''}''] (drop n s)"
proof (induction s arbitrary: n)
  case Nil
  then show ?case by simp
next
  case (Cons c cs)
  show ?case
  proof (cases "prefix [nl, CHR ''}''] (c # cs)")
    case True
    with Cons.prems show ?thesis by simp
  next
    case False
    with Cons.prems obtain k where k: "find_close cs = Some k" "n = Suc k" and c: "c \<noteq> CHR ''@''"
      by (auto split: if_splits)
    from Cons.IH [OF k(1)] have ih: "CHR ''@'' \<notin> set (take k cs)" "no_close (take k cs @ [nl])"
      "prefix [nl, CHR ''}''] (drop k cs)" by simp_all
    have "no_close (c # take k cs @ [nl])"
    proof (cases "take k cs @ [nl]")
      case Nil
      then show ?thesis by simp
    next
      case (Cons b r)
      have "\<not> (c = nl \<and> b = CHR ''}'')"
      proof
        assume cb: "c = nl \<and> b = CHR ''}''"
        then have "take k cs \<noteq> []" using Cons by (cases "take k cs") auto
        then obtain r' where "cs = b # r'" using Cons by (cases cs; cases k) auto
        with cb False show False by simp
      qed
      with ih(2) Cons show ?thesis by simp
    qed
    with ih c k show ?thesis by simp
  qed
qed

lemma find_close_append:
  "CHR ''@'' \<notin> set a \<Longrightarrow> no_close (a @ [nl]) \<Longrightarrow> find_close (a @ [nl, CHR ''}''] @ z) = Some (length a)"
proof (induction a)
  case Nil
  then show ?case by simp
next
  case (Cons c a)
  have np: "\<not> prefix [nl, CHR ''}''] (c # a @ [nl, CHR ''}''] @ z)"
  proof
    assume p: "prefix [nl, CHR ''}''] (c # a @ [nl, CHR ''}''] @ z)"
    show False
    proof (cases a)
      case Nil
      with p show ?thesis by simp
    next
      case (Cons b r)
      with p have "c = nl \<and> b = CHR ''}''" by simp
      with Cons Cons.prems(2) show ?thesis by simp
    qed
  qed
  have nc: "no_close (a @ [nl])" using Cons.prems(2) by (auto dest: no_close_Cons)
  have c: "c \<noteq> CHR ''@''" "CHR ''@'' \<notin> set a" using Cons.prems(1) by auto
  have "find_close (a @ [nl, CHR ''}''] @ z) = Some (length a)" using Cons.IH [OF c(2) nc] .
  with np c(1) show ?case by simp
qed

lemma match_entry_Some:
  assumes "match_entry s = Some n"
  shows "\<exists>h a z. match_header s = Some h \<and> s = take h s @ a @ [nl, CHR ''}''] @ z
      \<and> n = h + length a + 2 \<and> CHR ''@'' \<notin> set a \<and> no_close (a @ [nl])"
proof -
  from assms obtain h k where h: "match_header s = Some h" and k: "find_close (drop h s) = Some k"
    and n: "n = h + k + 2"
    by (auto simp: match_entry_def split: option.splits)
  from find_close_Some [OF k] have a: "CHR ''@'' \<notin> set (take k (drop h s))"
    "no_close (take k (drop h s) @ [nl])" and p: "prefix [nl, CHR ''}''] (drop k (drop h s))" by simp_all
  from p obtain z where z: "drop k (drop h s) = [nl, CHR ''}''] @ z" by (auto simp: prefix_def)
  have "s = take h s @ take k (drop h s) @ drop k (drop h s)"
    by (simp only: append_take_drop_id)
  then have s: "s = take h s @ take k (drop h s) @ [nl, CHR ''}''] @ z" using z by simp
  have "k \<le> length (drop h s)" using z by (metis drop_all list.distinct(1) append_Cons nat_le_linear)
  then have l: "length (take k (drop h s)) = k" by simp
  have n': "n = h + length (take k (drop h s)) + 2" using n l by simp
  show ?thesis
    using h s n' a
    by (intro exI [of _ h] exI [of _ "take k (drop h s)"] exI [of _ z] conjI)
qed

lemma match_entry_build:
  assumes "match_header s = Some h" and "CHR ''@'' \<notin> set a" and "no_close (a @ [nl])"
  shows "match_entry (take h s @ a @ [nl, CHR ''}''] @ z) = Some (h + length a + 2)"
proof -
  have hl: "h \<le> length s" using match_header_prefix [OF assms(1)] by simp
  have "take h s @ a @ [nl, CHR ''}''] @ z = take h s @ (a @ [nl, CHR ''}''] @ z)" by simp
  then have mh: "match_header (take h s @ a @ [nl, CHR ''}''] @ z) = Some h"
    using match_header_append [OF assms(1), of "a @ [nl, CHR ''}''] @ z"] by simp
  have "drop h (take h s @ a @ [nl, CHR ''}''] @ z) = a @ [nl, CHR ''}''] @ z" using hl by simp
  then show ?thesis using mh find_close_append [OF assms(2,3), of z] by (simp add: match_entry_def)
qed

lemma match_entry_take:
  assumes "match_entry s = Some n"
  shows "match_entry (take n s @ z) = Some n" and "n \<le> length s" and "hd s = CHR ''@''" and "s \<noteq> []"
proof -
  from match_entry_Some [OF assms] obtain h a z' where h: "match_header s = Some h"
    and s: "s = take h s @ a @ [nl, CHR ''}''] @ z'" and n: "n = h + length a + 2"
    and a: "CHR ''@'' \<notin> set a" "no_close (a @ [nl])" by blast
  have hl: "h \<le> length s" using match_header_prefix [OF h] by simp
  have "length s = h + length a + 2 + length z'"
    using arg_cong [OF s, of length] hl by simp
  then show "n \<le> length s" using n by simp
  have "take n s = take n (take h s @ a @ [nl, CHR ''}''] @ z')" using s by simp
  also have "\<dots> = take h s @ a @ [nl, CHR ''}'']" using n hl by simp
  finally have t: "take n s = take h s @ a @ [nl, CHR ''}'']" .
  show "match_entry (take n s @ z) = Some n"
    unfolding t using match_entry_build [OF h a, of z] n by simp
  show "hd s = CHR ''@''" "s \<noteq> []" using match_header_prefix [OF h] by simp_all
qed

lemma finditer_entries_spans:
  "(s, e) \<in> set (finditer_entries pos buf) \<Longrightarrow>
     pos \<le> s \<and> s < e \<and> e \<le> pos + length buf \<and> match_entry (drop (s - pos) buf) = Some (e - s)"
proof (induction pos buf rule: finditer_entries.induct)
  case (1 pos)
  then show ?case by simp
next
  case (2 pos c cs)
  show ?case
  proof (cases "match_entry (c # cs)")
    case None
    with 2 have ih: "pos + 1 \<le> s \<and> s < e \<and> e \<le> pos + 1 + length cs
        \<and> match_entry (drop (s - (pos + 1)) cs) = Some (e - s)" by simp
    then have "pos + 1 \<le> s" by simp
    then have "s - pos = Suc (s - (pos + 1))" by arith
    then have "drop (s - pos) (c # cs) = drop (s - (pos + 1)) cs" by simp
    with ih show ?thesis by simp
  next
    case (Some n)
    have n: "0 < n" "n \<le> length (c # cs)"
      using match_entry_pos [OF Some] match_entry_take(2) [OF Some] by simp_all
    from "2.prems" Some consider (here) "(s, e) = (pos, pos + n)"
      | (later) "(s, e) \<in> set (finditer_entries (pos + n) (drop n (c # cs)))" by auto
    then show ?thesis
    proof cases
      case here
      with Some n show ?thesis by simp
    next
      case later
      have r: "pos + n \<le> s \<and> s < e \<and> e \<le> pos + n + length (drop n (c # cs))
          \<and> match_entry (drop (s - (pos + n)) (drop n (c # cs))) = Some (e - s)"
        using "2.IH" Some later by blast
      have ih: "pos + n \<le> s" "s < e"
        "e \<le> pos + n + length (drop n (c # cs))"
        "match_entry (drop (s - (pos + n)) (drop n (c # cs))) = Some (e - s)"
        using r by blast+
      have "s - (pos + n) + n = s - pos" using ih(1) by arith
      then have "drop (s - (pos + n)) (drop n (c # cs)) = drop (s - pos) (c # cs)"
        by (simp only: drop_drop)
      with ih n show ?thesis by simp
    qed
  qed
qed

section \<open>The scanner: what it emits\<close>

text \<open>
  C5, as amended. The scanner of the enricher is a total function of the text (the
  search \<^const>\<open>finditer_entries\<close> terminates on every text): it emits one record for
  each match of the entry pattern, in order, and nothing else. Every record it emits is
  a complete match, so a candidate whose scan for the closing brace fails is left out.
  A record whose key is not found is emitted all the same, under the key
  \<^verbatim>\<open>unknown\<close>. Where the key of every record is found, the scanner of the thumbnail
  fetcher returns the same records.
\<close>

theorem scanner_emits_matched_candidates:
  "map e_span (parse_entries text) = finditer_entries 0 text
   \<and> (\<forall>e \<in> set (parse_entries text).
         fst (e_span e) < snd (e_span e) \<and> snd (e_span e) \<le> length text
       \<and> e_raw e = take (snd (e_span e) - fst (e_span e)) (drop (fst (e_span e)) text)
       \<and> match_entry (drop (fst (e_span e)) text) = Some (length (e_raw e))
       \<and> e_fields e = fields_of (e_raw e)
       \<and> e_key e = (case key_search (e_raw e) of Some k \<Rightarrow> k | None \<Rightarrow> ''unknown''))
   \<and> (\<forall>p. match_entry (drop p text) = None \<longrightarrow> p \<notin> fst ` e_span ` set (parse_entries text))
   \<and> ((\<forall>e \<in> set (parse_entries text). key_search (e_raw e) \<noteq> None)
        \<longrightarrow> parse_entries_thumb text = Inr (parse_entries text))"
proof -
  have a: "map e_span (parse_entries text) = finditer_entries 0 text"
    by (simp add: parse_entries_def Let_def case_prod_unfold comp_def)
  have b: "fst (e_span e) < snd (e_span e) \<and> snd (e_span e) \<le> length text
       \<and> e_raw e = take (snd (e_span e) - fst (e_span e)) (drop (fst (e_span e)) text)
       \<and> match_entry (drop (fst (e_span e)) text) = Some (length (e_raw e))
       \<and> e_fields e = fields_of (e_raw e)
       \<and> e_key e = (case key_search (e_raw e) of Some k \<Rightarrow> k | None \<Rightarrow> ''unknown'')"
    if "e \<in> set (parse_entries text)" for e
  proof -
    from that obtain s e' where se: "(s, e') \<in> set (finditer_entries 0 text)"
      and e: "e = \<lparr>e_key = (case key_search (take (e' - s) (drop s text)) of Some k \<Rightarrow> k | None \<Rightarrow> ''unknown''),
                e_raw = take (e' - s) (drop s text), e_fields = fields_of (take (e' - s) (drop s text)),
                e_span = (s, e')\<rparr>"
      by (auto simp: parse_entries_def Let_def)
    from finditer_entries_spans [OF se] have f: "s < e'" "e' \<le> length text"
      "match_entry (drop s text) = Some (e' - s)" by simp_all
    then have "length (take (e' - s) (drop s text)) = e' - s" by simp
    with e f show ?thesis by simp
  qed
  have c: "p \<notin> fst ` e_span ` set (parse_entries text)" if "match_entry (drop p text) = None" for p
    using b that by force
  have d: "parse_entries_thumb text = Inr (parse_entries text)"
    if k: "\<forall>e \<in> set (parse_entries text). key_search (e_raw e) \<noteq> None"
  proof -
    have "\<forall>(s, e) \<in> set (finditer_entries 0 text). key_search (take (e - s) (drop s text)) \<noteq> None"
      using k by (auto simp: parse_entries_def Let_def)
    from build_entries_Inr [OF this] show ?thesis
      by (simp add: parse_entries_thumb_def parse_entries_def)
  qed
  show ?thesis using a b c d by blast
qed

theorem scanner_emits_matched_candidates_witness:
  "map e_span (parse_entries (''@misc{k,'' @ [nl] @ ''  title = {T},'' @ [nl, CHR ''}''])) = [(0, 25)]
   \<and> map e_key (parse_entries (''@misc{k,'' @ [nl] @ ''  title = {T},'' @ [nl, CHR ''}''])) = [''k'']
   \<and> parse_entries_thumb (''@misc{k,'' @ [nl] @ ''  title = {T},'' @ [nl, CHR ''}'']) = Inr (parse_entries (''@misc{k,'' @ [nl] @ ''  title = {T},'' @ [nl, CHR ''}'']))"
proof -
  let ?raw = "take (25 - 0) (drop 0 (''@misc{k,'' @ [nl] @ ''  title = {T},'' @ [nl, CHR ''}'']))"
  have sp: "finditer_entries 0 (''@misc{k,'' @ [nl] @ ''  title = {T},'' @ [nl, CHR ''}'']) = [(0, 25)]" by code_simp
  have k: "key_search ?raw = Some ''k''" by code_simp
  have pe: "parse_entries (''@misc{k,'' @ [nl] @ ''  title = {T},'' @ [nl, CHR ''}''])
      = [\<lparr>e_key = ''k'', e_raw = ?raw, e_fields = fields_of ?raw, e_span = (0, 25)\<rparr>]"
    unfolding parse_entries_def sp by (simp only: list.map prod.case Let_def k option.case)
  have h: "\<forall>e \<in> set (parse_entries (''@misc{k,'' @ [nl] @ ''  title = {T},'' @ [nl, CHR ''}''])). key_search (e_raw e) \<noteq> None"
    unfolding pe using k by simp
  note T = scanner_emits_matched_candidates [of "(''@misc{k,'' @ [nl] @ ''  title = {T},'' @ [nl, CHR ''}''])"]
  have a: "map e_span (parse_entries (''@misc{k,'' @ [nl] @ ''  title = {T},'' @ [nl, CHR ''}''])) = [(0, 25)]"
    using T [THEN conjunct1] sp by simp
  have b: "map e_key (parse_entries (''@misc{k,'' @ [nl] @ ''  title = {T},'' @ [nl, CHR ''}''])) = [''k'']" unfolding pe by simp
  have c: "parse_entries_thumb (''@misc{k,'' @ [nl] @ ''  title = {T},'' @ [nl, CHR ''}'']) = Inr (parse_entries (''@misc{k,'' @ [nl] @ ''  title = {T},'' @ [nl, CHR ''}'']))"
    using T [THEN conjunct2, THEN conjunct2, THEN conjunct2] h by blast
  show ?thesis using a b c by (intro conjI)
qed

text \<open>
  C5 as stated fails: the entry below has no comma after its key, the key scan finds
  nothing, and the record is emitted under the key \<^verbatim>\<open>unknown\<close>.
\<close>

theorem scanner_keeps_keyless_entry_counterexample:
  "key_search (''@string{x = y'' @ [nl, CHR ''}'']) = None
   \<and> map e_span (parse_entries (''@string{x = y'' @ [nl, CHR ''}''])) = [(0, 15)]
   \<and> map e_key (parse_entries (''@string{x = y'' @ [nl, CHR ''}''])) = [''unknown'']"
  by (intro conjI; code_simp)
section \<open>A merged record is still one record\<close>

lemma field_line_hd: "field_line name v \<noteq> [] \<and> hd (field_line name v) = CHR '' ''"
  by (simp add: field_line_def)

lemma inserted_no_close:
  assumes "\<forall>(name, v) \<in> set fs. no_close (field_line name v)"
  shows "no_close (concat (map (\<lambda>(name, v). field_line name v @ [nl]) fs) @ [nl])
     \<and> hd (concat (map (\<lambda>(name, v). field_line name v @ [nl]) fs) @ [nl]) \<noteq> CHR ''}''"
  using assms
proof (induction fs)
  case Nil
  then show ?case by simp
next
  case (Cons f fs)
  obtain name v where f: "f = (name, v)" by (cases f)
  let ?rest = "concat (map (\<lambda>(name, v). field_line name v @ [nl]) fs) @ [nl]"
  from Cons have ih: "no_close ?rest" "hd ?rest \<noteq> CHR ''}''" by auto
  have fl: "no_close (field_line name v)" using Cons.prems f by auto
  have "no_close (field_line name v @ [nl])"
    using fl by (simp add: no_close_append)
  then have "no_close ((field_line name v @ [nl]) @ ?rest)"
    using ih by (subst no_close_append) simp
  moreover have "hd ((field_line name v @ [nl]) @ ?rest) = CHR '' ''"
    using field_line_hd [of name v] by simp
  ultimately show ?case using f by simp
qed

lemma inserted_no_at:
  assumes "\<forall>(name, v) \<in> set fs. CHR ''@'' \<notin> set (field_line name v)"
  shows "CHR ''@'' \<notin> set (concat (map (\<lambda>(name, v). field_line name v @ [nl]) fs))"
  using assms by (induction fs) auto

lemma merged_record_matches:
  assumes m: "match_entry s = Some n"
    and fs: "fs \<noteq> []"
    and at: "\<forall>(name, v) \<in> set fs. CHR ''@'' \<notin> set (field_line name v)"
    and nc: "\<forall>(name, v) \<in> set fs. no_close (field_line name v)"
  shows "match_entry (inject_fields (take n s) fs @ z) = Some (length (inject_fields (take n s) fs))"
proof -
  from match_entry_Some [OF m] obtain h a z' where h: "match_header s = Some h"
    and s: "s = take h s @ a @ [nl, CHR ''}''] @ z'" and n: "n = h + length a + 2"
    and a: "CHR ''@'' \<notin> set a" "no_close (a @ [nl])" by blast
  let ?H = "take h s"
  have hl: "h \<le> length s" "last ?H = CHR ''{''" "2 \<le> h" using match_header_prefix [OF h] by simp_all
  then have Hne: "?H \<noteq> []" by auto
  have "take n s = take n (?H @ a @ [nl, CHR ''}''] @ z')" using s by simp
  also have "\<dots> = ?H @ a @ [nl, CHR ''}'']" using n hl by simp
  finally have r: "take n s = ?H @ a @ [nl, CHR ''}'']" .
  define k where "k = (case py_rfind (?H @ a) [nl] of None \<Rightarrow> 0 | Some j \<Rightarrow> j + 1)"
  define pre where "pre = take k (?H @ a)"
  define line where "line = drop k (?H @ a)"
  have pl: "(pre = [] \<or> last pre = nl) \<and> nl \<notin> set line"
    unfolding pre_def line_def k_def by (rule last_line_split)
  have Ha: "?H @ a = pre @ line" unfolding pre_def line_def by (simp only: append_take_drop_id)
  have raw: "take n s = pre @ line @ [nl, CHR ''}''] @ []" using r Ha by simp
  define kept where "kept = (if (\<exists>c \<in> set line. \<not> is_space c) \<and> \<not> suffix '','' (py_rstrip line)
                     then py_rstrip line @ '','' else line)"
  define ins where "ins = concat (map (\<lambda>(name, v). field_line name v @ [nl]) fs)"
  have j: "py_join [nl] (map (\<lambda>(name, v). field_line name v) fs) @ [nl] = ins"
    using py_join_nl [OF fs, of "\<lambda>(name, v). field_line name v"]
    by (simp add: ins_def case_prod_unfold)
  have new: "inject_fields (take n s) fs = (pre @ kept) @ [nl] @ ins @ [nl, CHR ''}'']"
  proof -
    have "inject_fields (take n s) fs = (pre @ kept) @ [nl]
        @ (py_join [nl] (map (\<lambda>(name, v). field_line name v) fs) @ [nl]) @ [nl, CHR ''}''] @ []"
      unfolding kept_def
      using inject_fields_form [OF raw, of fs] pl by simp
    then show ?thesis unfolding j by simp
  qed
  have "\<exists>a'. pre @ kept = ?H @ a' \<and> CHR ''@'' \<notin> set a' \<and> no_close (a' @ [nl])"
  proof (cases "(\<exists>c \<in> set line. \<not> is_space c) \<and> \<not> suffix '','' (py_rstrip line)")
    case False
    then have "kept = line" unfolding kept_def by (rule if_not_P)
    then have "pre @ kept = ?H @ a" using Ha by simp
    with a show ?thesis by blast
  next
    case True
    let ?L = "py_rstrip line" and ?ws = "rev (takeWhile is_space (rev line))"
    have ld: "line = ?L @ ?ws" by (rule py_rstrip_decomp)
    have ws: "\<forall>c \<in> set ?ws. is_space c" by (auto dest: set_takeWhileD)
    have eq: "(pre @ ?L) @ ?ws = ?H @ a" using Ha ld by (metis append.assoc)
    then obtain us where "(pre @ ?L = ?H @ us \<and> us @ ?ws = a) \<or> ((pre @ ?L) @ us = ?H \<and> ?ws = us @ a)"
      by (auto simp only: append_eq_append_conv2)
    then obtain a'' where a'': "pre @ ?L = ?H @ a''" "a'' @ ?ws = a"
    proof
      assume "pre @ ?L = ?H @ us \<and> us @ ?ws = a"
      then show ?thesis using that by blast
    next
      assume c: "(pre @ ?L) @ us = ?H \<and> ?ws = us @ a"
      have "us = []"
      proof (rule ccontr)
        assume "us \<noteq> []"
        then have "last ?H = last us" using c by (metis last_appendR)
        moreover have "last us \<in> set ?ws" using c \<open>us \<noteq> []\<close> by (metis last_in_set Un_iff set_append)
        ultimately have "is_space CHR ''{''" using ws hl(2) by metis
        then show False by (simp add: brace_classes)
      qed
      with c have "pre @ ?L = ?H @ []" "[] @ ?ws = a" by simp_all
      then show ?thesis using that by blast
    qed
    have "kept = ?L @ '',''" unfolding kept_def using True by (rule if_P)
    then have k: "pre @ kept = ?H @ (a'' @ '','')" using a''(1) by simp
    have at': "CHR ''@'' \<notin> set (a'' @ '','')" using a(1) a''(2) by auto
    have "no_close a" using a(2) by (simp add: no_close_append)
    then have "no_close a''" using a''(2) by (metis no_close_append)
    then have "no_close ((a'' @ '','') @ [nl])" by (simp add: no_close_append)
    with k at' show ?thesis by blast
  qed
  then obtain a' where a': "pre @ kept = ?H @ a'" "CHR ''@'' \<notin> set a'" "no_close (a' @ [nl])" by blast
  have i1: "no_close (ins @ [nl])" "hd (ins @ [nl]) \<noteq> CHR ''}''"
    using inserted_no_close [OF nc] by (simp_all add: ins_def)
  have i2: "CHR ''@'' \<notin> set ins" using inserted_no_at [OF at] by (simp add: ins_def)
  have A1: "CHR ''@'' \<notin> set (a' @ [nl] @ ins)" using a'(2) i2 by simp
  have "no_close ((a' @ [nl]) @ (ins @ [nl]))"
    using a'(3) i1 by (subst no_close_append) simp
  then have A2: "no_close ((a' @ [nl] @ ins) @ [nl])" by simp
  have new': "inject_fields (take n s) fs = ?H @ (a' @ [nl] @ ins) @ [nl, CHR ''}'']"
    using new a'(1) by simp
  have len: "length (inject_fields (take n s) fs) = h + length (a' @ [nl] @ ins) + 2"
    unfolding new' using hl(1) by simp
  have "match_entry (?H @ (a' @ [nl] @ ins) @ [nl, CHR ''}''] @ z) = Some (h + length (a' @ [nl] @ ins) + 2)"
    by (rule match_entry_build [OF h A1 A2])
  then show ?thesis unfolding len new' using hl(1) by simp
qed

section \<open>Scanning a patched text\<close>

lemma entry_texts_finditer:
  "map (\<lambda>(s, e). take (e - s) (drop (s - pos) buf)) (finditer_entries pos buf) = entry_texts buf"
proof (induction pos buf rule: finditer_entries.induct)
  case (1 pos)
  then show ?case by simp
next
  case (2 pos c cs)
  show ?case
  proof (cases "match_entry (c # cs)")
    case None
    have "map (\<lambda>(s, e). take (e - s) (drop (s - pos) (c # cs))) (finditer_entries (pos + 1) cs)
        = map (\<lambda>(s, e). take (e - s) (drop (s - (pos + 1)) cs)) (finditer_entries (pos + 1) cs)"
    proof (rule map_cong [OF refl])
      fix x assume x: "x \<in> set (finditer_entries (pos + 1) cs)"
      obtain s e where se: "x = (s, e)" by (cases x)
      with x have "pos + 1 \<le> s" using finditer_entries_spans [of s e "pos + 1" cs] by simp
      then have "s - pos = Suc (s - (pos + 1))" by arith
      then show "(case x of (s, e) \<Rightarrow> take (e - s) (drop (s - pos) (c # cs)))
          = (case x of (s, e) \<Rightarrow> take (e - s) (drop (s - (pos + 1)) cs))"
        using se by simp
    qed
    also have "\<dots> = entry_texts cs" using "2.IH" None by blast
    finally show ?thesis using None by simp
  next
    case (Some n)
    have "map (\<lambda>(s, e). take (e - s) (drop (s - pos) (c # cs)))
            (finditer_entries (pos + n) (drop n (c # cs)))
        = map (\<lambda>(s, e). take (e - s) (drop (s - (pos + n)) (drop n (c # cs))))
            (finditer_entries (pos + n) (drop n (c # cs)))"
    proof (rule map_cong [OF refl])
      fix x assume x: "x \<in> set (finditer_entries (pos + n) (drop n (c # cs)))"
      obtain s e where se: "x = (s, e)" by (cases x)
      with x have "pos + n \<le> s"
        using finditer_entries_spans [of s e "pos + n" "drop n (c # cs)"] by simp
      then have "s - (pos + n) + n = s - pos" by arith
      then have "drop (s - (pos + n)) (drop n (c # cs)) = drop (s - pos) (c # cs)"
        by (simp only: drop_drop)
      then show "(case x of (s, e) \<Rightarrow> take (e - s) (drop (s - pos) (c # cs)))
          = (case x of (s, e) \<Rightarrow> take (e - s) (drop (s - (pos + n)) (drop n (c # cs))))"
        using se by simp
    qed
    also have "\<dots> = entry_texts (drop n (c # cs))" using "2.IH" Some by blast
    finally show ?thesis using Some by simp
  qed
qed

lemma entry_texts_parse: "map e_raw (parse_entries text) = entry_texts text"
proof -
  have "map e_raw (parse_entries text)
      = map (\<lambda>(s, e). take (e - s) (drop (s - 0) text)) (finditer_entries 0 text)"
    by (simp add: parse_entries_def Let_def case_prod_unfold comp_def)
  then show ?thesis by (simp only: entry_texts_finditer)
qed

lemma match_entry_no_at:
  assumes "match_entry s = Some n"
  shows "CHR ''@'' \<notin> set (tl (take n s))"
proof -
  from match_entry_Some [OF assms] obtain h a z' where h: "match_header s = Some h"
    and s: "s = take h s @ a @ [nl, CHR ''}''] @ z'" and n: "n = h + length a + 2"
    and a: "CHR ''@'' \<notin> set a" by blast
  from h obtain w sp rest where s': "s = CHR ''@'' # w @ sp @ CHR ''{'' # rest"
    and ww: "\<forall>c \<in> set w. is_word c" and ss: "\<forall>c \<in> set sp. is_space c"
    and h': "h = length w + length sp + 2" by (auto simp: match_header_iff)
  have th: "take h s = CHR ''@'' # w @ sp @ [CHR ''{'']"
    by (subst s') (simp add: h')
  have hl: "h \<le> length s" using match_header_prefix [OF h] by simp
  have "take n s = take n (take h s @ a @ [nl, CHR ''}''] @ z')" using s by simp
  also have "\<dots> = take h s @ a @ [nl, CHR ''}'']" using n hl by simp
  finally have "tl (take n s) = w @ sp @ [CHR ''{''] @ a @ [nl, CHR ''}'']" using th by simp
  moreover have "CHR ''@'' \<notin> set w" using ww brace_classes by auto
  moreover have "CHR ''@'' \<notin> set sp" using ss brace_classes by auto
  ultimately show ?thesis using a by simp
qed

lemma match_entry_before_at:
  assumes "match_entry (u @ CHR ''@'' # x) = Some n" and "u \<noteq> []"
  shows "match_entry (u @ CHR ''@'' # y) = Some n"
proof -
  let ?s = "u @ CHR ''@'' # x"
  have nl: "n \<le> length u"
  proof (rule ccontr)
    assume "\<not> n \<le> length u"
    then have "length u < n" by simp
    then have "take n ?s = u @ CHR ''@'' # take (n - Suc (length u)) x"
      by (simp add: take_Cons' )
    moreover obtain c u' where "u = c # u'" using assms(2) by (cases u) auto
    ultimately have "CHR ''@'' \<in> set (tl (take n ?s))" by simp
    with match_entry_no_at [OF assms(1)] show False by simp
  qed
  then have t: "take n ?s = take n u" "take n (u @ CHR ''@'' # y) = take n u" by simp_all
  have "match_entry (take n ?s @ drop n (u @ CHR ''@'' # y)) = Some n"
    by (rule match_entry_take(1) [OF assms(1)])
  then have "match_entry (take n (u @ CHR ''@'' # y) @ drop n (u @ CHR ''@'' # y)) = Some n"
    unfolding t .
  then show ?thesis by (simp only: append_take_drop_id)
qed

lemma match_entry_stable:
  assumes "u \<noteq> []"
  shows "match_entry (u @ CHR ''@'' # x) = match_entry (u @ CHR ''@'' # y)"
proof (cases "match_entry (u @ CHR ''@'' # x)")
  case (Some n)
  then show ?thesis using match_entry_before_at [OF Some assms, of y] by simp
next
  case None
  show ?thesis
  proof (cases "match_entry (u @ CHR ''@'' # y)")
    case None
    with \<open>match_entry (u @ CHR ''@'' # x) = None\<close> show ?thesis by simp
  next
    case (Some n)
    from match_entry_before_at [OF Some assms, of x] None show ?thesis by simp
  qed
qed

lemma whole_hd: "whole r \<Longrightarrow> r \<noteq> [] \<and> hd r = CHR ''@''"
proof -
  assume w: "whole r"
  then have m: "match_entry (r @ []) = Some (length r)" unfolding whole_def by blast
  from match_entry_pos [OF m] have "r \<noteq> []" by simp
  moreover from match_entry_take(3) [OF m] have "hd r = CHR ''@''" by simp
  ultimately show ?thesis by simp
qed

lemma whole_take: "match_entry s = Some n \<Longrightarrow> whole (take n s)"
proof -
  assume m: "match_entry s = Some n"
  have "length (take n s) = n" using match_entry_take(2) [OF m] by simp
  then show ?thesis unfolding whole_def using match_entry_take(1) [OF m] by simp
qed

lemma finditer_entries_sub:
  "match_entry (c # cs) = None \<Longrightarrow> set (finditer_entries (pos + 1) cs) \<subseteq> set (finditer_entries pos (c # cs))"
  "match_entry (c # cs) = Some n \<Longrightarrow>
     set (finditer_entries (pos + n) (drop n (c # cs))) \<subseteq> set (finditer_entries pos (c # cs))
     \<and> (pos, pos + n) \<in> set (finditer_entries pos (c # cs))"
  by auto

lemma patch_scan_agree:
  assumes "\<forall>sp \<in> set (finditer_entries pos buf). \<forall>r. m sp = Some r \<longrightarrow> whole r"
  shows "patch_scan m pos buf = buf
     \<or> (\<exists>u x y. buf = u @ CHR ''@'' # x \<and> patch_scan m pos buf = u @ CHR ''@'' # y)"
  using assms
proof (induction pos buf rule: finditer_entries.induct)
  case (1 pos)
  then show ?case by simp
next
  case (2 pos c cs)
  show ?case
  proof (cases "match_entry (c # cs)")
    case None
    have g: "\<forall>sp \<in> set (finditer_entries (pos + 1) cs). \<forall>r. m sp = Some r \<longrightarrow> whole r"
      using "2.prems" finditer_entries_sub(1) [OF None, of pos] by blast
    have "patch_scan m (pos + 1) cs = cs
       \<or> (\<exists>u x y. cs = u @ CHR ''@'' # x \<and> patch_scan m (pos + 1) cs = u @ CHR ''@'' # y)"
      using "2.IH" None g by blast
    then show ?thesis
    proof
      assume "patch_scan m (pos + 1) cs = cs"
      with None show ?thesis by simp
    next
      assume "\<exists>u x y. cs = u @ CHR ''@'' # x \<and> patch_scan m (pos + 1) cs = u @ CHR ''@'' # y"
      then obtain u x y where "cs = u @ CHR ''@'' # x" "patch_scan m (pos + 1) cs = u @ CHR ''@'' # y"
        by blast
      then have "c # cs = (c # u) @ CHR ''@'' # x \<and> patch_scan m pos (c # cs) = (c # u) @ CHR ''@'' # y"
        using None by simp
      then show ?thesis by blast
    qed
  next
    case (Some n)
    define R where "R = (case m (pos, pos + n) of Some new_raw \<Rightarrow> new_raw | None \<Rightarrow> take n (c # cs))"
    have "whole R"
    proof (cases "m (pos, pos + n)")
      case None
      then show ?thesis using whole_take [OF Some] by (simp add: R_def)
    next
      case (Some r)
      have "(pos, pos + n) \<in> set (finditer_entries pos (c # cs))"
        using finditer_entries_sub(2) [OF \<open>match_entry (c # cs) = Some n\<close>, of pos] by blast
      with "2.prems" Some have "whole r" by blast
      with Some show ?thesis by (simp add: R_def)
    qed
    then obtain R' where R': "R = CHR ''@'' # R'" using whole_hd [of R] by (cases R) auto
    have c: "c = CHR ''@''" using match_entry_take(3) [OF Some] by simp
    have "patch_scan m pos (c # cs) = R @ patch_scan m (pos + n) (drop n (c # cs))"
      using Some by (simp add: R_def)
    then have "c # cs = [] @ CHR ''@'' # cs
        \<and> patch_scan m pos (c # cs) = [] @ CHR ''@'' # (R' @ patch_scan m (pos + n) (drop n (c # cs)))"
      using R' c by simp
    then show ?thesis by blast
  qed
qed

lemma rescan_patched:
  assumes "\<forall>sp \<in> set (finditer_entries pos buf). \<forall>r. m sp = Some r \<longrightarrow> whole r"
  shows "entry_texts (patch_scan m pos buf)
     = map (\<lambda>(s, e). case m (s, e) of Some new_raw \<Rightarrow> new_raw | None \<Rightarrow> take (e - s) (drop (s - pos) buf))
         (finditer_entries pos buf)"
  using assms
proof (induction pos buf rule: finditer_entries.induct)
  case (1 pos)
  then show ?case by simp
next
  case (2 pos c cs)
  show ?case
  proof (cases "match_entry (c # cs)")
    case None
    have g: "\<forall>sp \<in> set (finditer_entries (pos + 1) cs). \<forall>r. m sp = Some r \<longrightarrow> whole r"
      using "2.prems" finditer_entries_sub(1) [OF None, of pos] by blast
    let ?Y = "patch_scan m (pos + 1) cs"
    have still: "match_entry (c # ?Y) = None"
    proof -
      from patch_scan_agree [OF g] show ?thesis
      proof
        assume "?Y = cs"
        with None show ?thesis by simp
      next
        assume "\<exists>u x y. cs = u @ CHR ''@'' # x \<and> ?Y = u @ CHR ''@'' # y"
        then obtain u x y where u: "cs = u @ CHR ''@'' # x" "?Y = u @ CHR ''@'' # y" by blast
        have "match_entry ((c # u) @ CHR ''@'' # y) = match_entry ((c # u) @ CHR ''@'' # x)"
          by (rule match_entry_stable) simp
        with u None show ?thesis by simp
      qed
    qed
    have ih: "entry_texts ?Y
        = map (\<lambda>(s, e). case m (s, e) of Some new_raw \<Rightarrow> new_raw | None \<Rightarrow> take (e - s) (drop (s - (pos + 1)) cs))
            (finditer_entries (pos + 1) cs)"
      using "2.IH" None g by blast
    have "map (\<lambda>(s, e). case m (s, e) of Some new_raw \<Rightarrow> new_raw | None \<Rightarrow> take (e - s) (drop (s - (pos + 1)) cs))
            (finditer_entries (pos + 1) cs)
        = map (\<lambda>(s, e). case m (s, e) of Some new_raw \<Rightarrow> new_raw | None \<Rightarrow> take (e - s) (drop (s - pos) (c # cs)))
            (finditer_entries (pos + 1) cs)"
    proof (rule map_cong [OF refl])
      fix x assume x: "x \<in> set (finditer_entries (pos + 1) cs)"
      obtain s e where se: "x = (s, e)" by (cases x)
      with x have "pos + 1 \<le> s" using finditer_entries_spans [of s e "pos + 1" cs] by simp
      then have "s - pos = Suc (s - (pos + 1))" by arith
      then have d: "drop (s - pos) (c # cs) = drop (s - (pos + 1)) cs" by simp
      show "(case x of (s, e) \<Rightarrow> case m (s, e) of Some new_raw \<Rightarrow> new_raw
                    | None \<Rightarrow> take (e - s) (drop (s - (pos + 1)) cs))
          = (case x of (s, e) \<Rightarrow> case m (s, e) of Some new_raw \<Rightarrow> new_raw
                    | None \<Rightarrow> take (e - s) (drop (s - pos) (c # cs)))"
        by (simp only: se prod.case d)
    qed
    with ih still None show ?thesis by simp
  next
    case (Some n)
    have g: "\<forall>sp \<in> set (finditer_entries (pos + n) (drop n (c # cs))). \<forall>r. m sp = Some r \<longrightarrow> whole r"
      using "2.prems" finditer_entries_sub(2) [OF Some, of pos] by blast
    define R where "R = (case m (pos, pos + n) of Some new_raw \<Rightarrow> new_raw | None \<Rightarrow> take n (c # cs))"
    let ?Y = "patch_scan m (pos + n) (drop n (c # cs))"
    have wR: "whole R"
    proof (cases "m (pos, pos + n)")
      case None
      then show ?thesis using whole_take [OF Some] by (simp add: R_def)
    next
      case (Some r)
      have "(pos, pos + n) \<in> set (finditer_entries pos (c # cs))"
        using finditer_entries_sub(2) [OF \<open>match_entry (c # cs) = Some n\<close>, of pos] by blast
      with "2.prems" Some have "whole r" by blast
      with Some show ?thesis by (simp add: R_def)
    qed
    then obtain R' where R': "R = CHR ''@'' # R'" using whole_hd [of R] by (cases R) auto
    have mR: "match_entry (R @ ?Y) = Some (length R)" using wR unfolding whole_def by blast
    have ps: "patch_scan m pos (c # cs) = R @ ?Y" using Some by (simp add: R_def)
    have e1: "entry_texts (R @ ?Y) = R # entry_texts ?Y"
    proof -
      have "entry_texts (CHR ''@'' # R' @ ?Y)
          = take (length R) (CHR ''@'' # R' @ ?Y) # entry_texts (drop (length R) (CHR ''@'' # R' @ ?Y))"
        using mR R' by simp
      moreover have "take (length R) (R @ ?Y) = R" "drop (length R) (R @ ?Y) = ?Y" by simp_all
      ultimately show ?thesis using R' by simp
    qed
    have ih: "entry_texts ?Y
        = map (\<lambda>(s, e). case m (s, e) of Some new_raw \<Rightarrow> new_raw
                 | None \<Rightarrow> take (e - s) (drop (s - (pos + n)) (drop n (c # cs))))
            (finditer_entries (pos + n) (drop n (c # cs)))"
      using "2.IH" Some g by blast
    have e3: "map (\<lambda>(s, e). case m (s, e) of Some new_raw \<Rightarrow> new_raw
                 | None \<Rightarrow> take (e - s) (drop (s - (pos + n)) (drop n (c # cs))))
            (finditer_entries (pos + n) (drop n (c # cs)))
        = map (\<lambda>(s, e). case m (s, e) of Some new_raw \<Rightarrow> new_raw
                 | None \<Rightarrow> take (e - s) (drop (s - pos) (c # cs)))
            (finditer_entries (pos + n) (drop n (c # cs)))"
    proof (rule map_cong [OF refl])
      fix x assume x: "x \<in> set (finditer_entries (pos + n) (drop n (c # cs)))"
      obtain s e where se: "x = (s, e)" by (cases x)
      with x have "pos + n \<le> s"
        using finditer_entries_spans [of s e "pos + n" "drop n (c # cs)"] by simp
      then have "s - (pos + n) + n = s - pos" by arith
      then have d: "drop (s - (pos + n)) (drop n (c # cs)) = drop (s - pos) (c # cs)"
        by (simp only: drop_drop)
      show "(case x of (s, e) \<Rightarrow> case m (s, e) of Some new_raw \<Rightarrow> new_raw
                    | None \<Rightarrow> take (e - s) (drop (s - (pos + n)) (drop n (c # cs))))
          = (case x of (s, e) \<Rightarrow> case m (s, e) of Some new_raw \<Rightarrow> new_raw
                    | None \<Rightarrow> take (e - s) (drop (s - pos) (c # cs)))"
        by (simp only: se prod.case d)
    qed
    have fin: "finditer_entries pos (c # cs)
        = (pos, pos + n) # finditer_entries (pos + n) (drop n (c # cs))"
      using Some by simp
    have hd: "(case m (pos, pos + n) of Some new_raw \<Rightarrow> new_raw
                 | None \<Rightarrow> take (pos + n - pos) (drop (pos - pos) (c # cs))) = R"
      by (simp add: R_def split: option.splits)
    have "entry_texts (patch_scan m pos (c # cs)) = R # entry_texts ?Y"
      unfolding ps by (rule e1)
    also have "entry_texts ?Y = map (\<lambda>(s, e). case m (s, e) of Some new_raw \<Rightarrow> new_raw
                 | None \<Rightarrow> take (e - s) (drop (s - pos) (c # cs)))
            (finditer_entries (pos + n) (drop n (c # cs)))"
      using ih e3 by (rule trans)
    finally show ?thesis unfolding fin by (simp only: list.map prod.case hd)
  qed
qed

section \<open>Splicing in descending order\<close>

lemma chain_bounds: "chain lo spans \<Longrightarrow> (s, e) \<in> set spans \<Longrightarrow> lo \<le> s \<and> s < e"
proof (induction spans arbitrary: lo)
  case Nil
  then show ?case by simp
next
  case (Cons a spans)
  obtain s' e' where a: "a = (s', e')" by (cases a)
  from Cons.prems a have c: "lo \<le> s'" "s' < e'" "chain e' spans" by simp_all
  show ?case
  proof (cases "(s, e) = a")
    case True
    with a c show ?thesis by simp
  next
    case False
    with Cons.prems have "(s, e) \<in> set spans" by simp
    from Cons.IH [OF c(3) this] c show ?thesis by simp
  qed
qed

lemma chain_start_inj:
  "chain lo spans \<Longrightarrow> x \<in> set spans \<Longrightarrow> y \<in> set spans \<Longrightarrow> fst x = fst y \<Longrightarrow> x = y"
proof (induction spans arbitrary: lo)
  case Nil
  then show ?case by simp
next
  case (Cons a spans)
  obtain s' e' where a: "a = (s', e')" by (cases a)
  from Cons.prems a have c: "s' < e'" "chain e' spans" by simp_all
  have later: "e' \<le> fst z" if "z \<in> set spans" for z
    using chain_bounds [OF c(2), of "fst z" "snd z"] that by simp
  consider "x = a" "y = a" | "x = a" "y \<in> set spans" | "x \<in> set spans" "y = a"
    | "x \<in> set spans" "y \<in> set spans" using Cons.prems by auto
  then show ?case
  proof cases
    case 1
    then show ?thesis by simp
  next
    case 2
    with later [of y] a c Cons.prems(4) show ?thesis by simp
  next
    case 3
    with later [of x] a c Cons.prems(4) show ?thesis by simp
  next
    case 4
    with Cons.IH [OF c(2)] Cons.prems(4) show ?thesis by blast
  qed
qed

lemma finditer_entries_chain: "chain pos (finditer_entries pos buf)"
proof (induction pos buf rule: finditer_entries.induct)
  case (1 pos)
  then show ?case by simp
next
  case (2 pos c cs)
  show ?case
  proof (cases "match_entry (c # cs)")
    case None
    with "2.IH" have "chain (pos + 1) (finditer_entries (pos + 1) cs)" by blast
    then have "chain pos (finditer_entries (pos + 1) cs)"
      by (cases "finditer_entries (pos + 1) cs") auto
    with None show ?thesis by simp
  next
    case (Some n)
    with "2.IH" have "chain (pos + n) (finditer_entries (pos + n) (drop n (c # cs)))" by blast
    with Some match_entry_pos [OF Some] show ?thesis by simp
  qed
qed

lemma rebuild_step:
  assumes "pos < length text" and "chain (pos + 1) spans"
  shows "rebuild text m pos spans = text ! pos # rebuild text m (pos + 1) spans"
proof (cases spans)
  case Nil
  then show ?thesis using assms(1) by (simp add: Cons_nth_drop_Suc)
next
  case (Cons a r)
  obtain s e where a: "a = (s, e)" by (cases a)
  with Cons assms(2) have "pos + 1 \<le> s" by simp
  then have "s - pos = Suc (s - (pos + 1))" by arith
  moreover have "drop pos text = text ! pos # drop (pos + 1) text"
    using assms(1) by (simp add: Cons_nth_drop_Suc)
  ultimately have "take (s - pos) (drop pos text) = text ! pos # take (s - (pos + 1)) (drop (pos + 1) text)"
    by simp
  with Cons a show ?thesis by simp
qed

lemma patch_scan_rebuild:
  assumes "buf = drop pos text"
  shows "patch_scan m pos buf = rebuild text m pos (finditer_entries pos buf)"
  using assms
proof (induction pos buf rule: finditer_entries.induct)
  case (1 pos)
  then show ?case by simp
next
  case (2 pos c cs)
  have lt: "pos < length text" using "2.prems" by (metis drop_all list.distinct(1) not_le)
  have cs: "cs = drop (pos + 1) text" "c = text ! pos"
    using "2.prems" lt by (simp_all add: Cons_nth_drop_Suc [symmetric])
  show ?case
  proof (cases "match_entry (c # cs)")
    case None
    have "patch_scan m (pos + 1) cs = rebuild text m (pos + 1) (finditer_entries (pos + 1) cs)"
      using "2.IH" None cs(1) by blast
    moreover have "rebuild text m pos (finditer_entries (pos + 1) cs)
        = text ! pos # rebuild text m (pos + 1) (finditer_entries (pos + 1) cs)"
      by (rule rebuild_step [OF lt finditer_entries_chain])
    ultimately show ?thesis using None cs(2) by simp
  next
    case (Some n)
    have d: "drop n (c # cs) = drop (pos + n) text"
      unfolding "2.prems" by (simp only: drop_drop add.commute)
    have "patch_scan m (pos + n) (drop n (c # cs))
        = rebuild text m (pos + n) (finditer_entries (pos + n) (drop n (c # cs)))"
      using "2.IH" Some d by blast
    moreover have "take n (c # cs) = take (pos + n - pos) (drop pos text)"
      using "2.prems" by simp
    ultimately show ?thesis using Some by (simp split: option.splits)
  qed
qed

lemma foldr_splice_rebuild:
  assumes "chain pos spans" and "\<forall>(s, e) \<in> set spans. e \<le> length text" and "pos \<le> length text"
  shows "foldr (\<lambda>r t. splice t r) (patched m spans) text = take pos text @ rebuild text m pos spans"
  using assms
proof (induction spans arbitrary: pos)
  case Nil
  then show ?case by simp
next
  case (Cons a spans)
  obtain s e where a: "a = (s, e)" by (cases a)
  from Cons.prems a have c: "pos \<le> s" "s < e" "chain e spans" "e \<le> length text" by simp_all
  have ih: "foldr (\<lambda>r t. splice t r) (patched m spans) text = take e text @ rebuild text m e spans"
    using Cons.IH [OF c(3)] Cons.prems(2) c(4) by simp
  have pre: "take pos text @ take (s - pos) (drop pos text) = take s text"
    using c(1) by (metis le_add_diff_inverse take_add)
  show ?case
  proof (cases "m (s, e)")
    case None
    have "take s text @ take (e - s) (drop s text) = take e text"
      using c(2) by (metis le_add_diff_inverse less_imp_le_nat take_add)
    then have "take pos text @ rebuild text m pos ((s, e) # spans) = take e text @ rebuild text m e spans"
      using pre None by (metis append.assoc rebuild.simps(2) option.simps(4))
    with ih a None show ?thesis by simp
  next
    case (Some new_raw)
    have l: "length (take e text) = e" using c(4) by simp
    have "splice (take e text @ rebuild text m e spans) ((s, e), new_raw)
        = take s text @ new_raw @ rebuild text m e spans"
      using c(2) l by (simp add: splice_def min_def)
    moreover have "take pos text @ rebuild text m pos ((s, e) # spans)
        = take s text @ new_raw @ rebuild text m e spans"
      using pre Some by (metis append.assoc rebuild.simps(2) option.simps(5))
    ultimately show ?thesis using ih a Some by simp
  qed
qed

lemma set_patched: "set (patched m spans) = {(sp, r). sp \<in> set spans \<and> m sp = Some r}"
  by (induction spans) (auto split: option.splits)

lemma patched_sorted:
  assumes "chain lo spans"
  shows "sorted (map (\<lambda>x. - int (fst (fst x))) (rev (patched m spans)))
     \<and> distinct (map (\<lambda>x. - int (fst (fst x))) (patched m spans))"
  using assms
proof (induction spans arbitrary: lo)
  case Nil
  then show ?case by simp
next
  case (Cons a spans)
  obtain s e where a: "a = (s, e)" by (cases a)
  from Cons.prems a have c: "s < e" "chain e spans" by simp_all
  note ih = Cons.IH [OF c(2)]
  have later: "e \<le> fst (fst x)" if "x \<in> set (patched m spans)" for x
  proof -
    from that have "fst x \<in> set spans" by (auto simp: set_patched)
    then show ?thesis using chain_bounds [OF c(2), of "fst (fst x)" "snd (fst x)"] by simp
  qed
  show ?case
  proof (cases "m (s, e)")
    case None
    with ih a show ?thesis by simp
  next
    case (Some r)
    have "\<forall>x \<in> set (patched m spans). - int (fst (fst x)) \<le> - int s"
      using later c(1) by fastforce
    moreover have "- int s \<notin> (\<lambda>x. - int (fst (fst x))) ` set (patched m spans)"
      using later c(1) by fastforce
    ultimately show ?thesis using ih a Some by (simp add: sorted_append)
  qed
qed

lemma sorted_by_key_unique:
  fixes f :: "'a \<Rightarrow> int"
  assumes "sorted (map f xs)" "distinct (map f xs)" "sorted (map f ys)" "distinct (map f ys)"
    and "set xs = set ys"
  shows "xs = ys"
proof -
  have "set (map f xs) = set (map f ys)" using assms(5) by simp
  then have "map f xs = map f ys"
    using assms(1-4) by (intro sorted_distinct_set_unique)
  moreover have "inj_on f (set xs \<union> set ys)" using assms(2,5) by (simp add: distinct_map)
  ultimately show ?thesis by (rule map_inj_on)
qed

lemma sort_key_patched:
  assumes ch: "chain lo spans" and d: "distinct (map fst reps)"
    and sub: "set (map fst reps) \<subseteq> set spans"
  shows "sort_key (\<lambda>x. - int (fst (fst x))) reps = rev (patched (map_of reps) spans)"
proof (rule sorted_by_key_unique [where f = "\<lambda>x. - int (fst (fst x))"])
  let ?f = "\<lambda>x :: replacement. - int (fst (fst x))"
  show "sorted (map ?f (sort_key ?f reps))" by (rule sorted_sort_key)
  have inj: "inj_on ?f (set reps)"
  proof (rule inj_onI)
    fix x y assume x: "x \<in> set reps" and y: "y \<in> set reps" and "?f x = ?f y"
    then have "fst (fst x) = fst (fst y)" by simp
    moreover have "fst x \<in> set spans" "fst y \<in> set spans" using x y sub by auto
    ultimately have "fst x = fst y" using chain_start_inj [OF ch] by blast
    moreover have "inj_on fst (set reps)" using d by (simp add: distinct_map)
    ultimately show "x = y" using x y by (auto dest: inj_onD)
  qed
  have "distinct reps" using d by (simp add: distinct_map)
  then show "distinct (map ?f (sort_key ?f reps))" using inj by (simp add: distinct_map)
  show "sorted (map ?f (rev (patched (map_of reps) spans)))"
    using patched_sorted [OF ch] by blast
  have "distinct (map ?f (patched (map_of reps) spans))" using patched_sorted [OF ch] by blast
  then show "distinct (map ?f (rev (patched (map_of reps) spans)))"
    by (simp add: rev_map [symmetric])
  have "set (patched (map_of reps) spans) = set reps"
  proof -
    have "(sp, r) \<in> set reps \<longleftrightarrow> sp \<in> set spans \<and> map_of reps sp = Some r" for sp r
      using d sub by (auto dest: map_of_SomeD intro: map_of_is_SomeI)
    then show ?thesis by (auto simp: set_patched)
  qed
  then show "set (sort_key ?f reps) = set (rev (patched (map_of reps) spans))" by simp
qed

lemma apply_replacements_patch_scan:
  assumes "distinct (map fst reps)" and "set (map fst reps) \<subseteq> set (finditer_entries 0 text)"
  shows "apply_replacements text reps = patch_scan (map_of reps) 0 text"
proof -
  let ?spans = "finditer_entries 0 text" and ?m = "map_of reps"
  have ch: "chain 0 ?spans" by (rule finditer_entries_chain)
  have b: "\<forall>(s, e) \<in> set ?spans. e \<le> length text"
    using finditer_entries_spans [of _ _ 0 "text"] by auto
  have "apply_replacements text reps = foldl splice text (rev (patched ?m ?spans))"
    unfolding apply_replacements_def by (simp only: sort_key_patched [OF ch assms])
  also have "\<dots> = foldr (\<lambda>r t. splice t r) (patched ?m ?spans) text"
    by (simp add: foldr_conv_foldl)
  also have "\<dots> = take 0 text @ rebuild text ?m 0 ?spans"
    by (rule foldr_splice_rebuild [OF ch b]) simp
  also have "\<dots> = patch_scan ?m 0 text"
    using patch_scan_rebuild [of "text" 0 "text" ?m] by simp
  finally show ?thesis .
qed

lemma inject_field_single: "inject_field raw name v = inject_fields raw [(name, v)]"
proof (cases "py_rfind raw [nl, CHR ''}'']")
  case None
  then show ?thesis by (simp add: inject_field_def inject_fields_def)
next
  case (Some idx)
  from marker_decomposition [OF Some] obtain pre line rest where
    d: "raw = pre @ line @ [nl, CHR ''}''] @ rest" "pre = [] \<or> last pre = nl" "nl \<notin> set line"
      "\<not> sublist [nl, CHR ''}''] rest" by blast
  show ?thesis
    using inject_fields_form [OF d, of "[(name, v)]"] inject_field_form [OF d, of name v] by simp
qed

lemma parse_entries_spans: "map e_span (parse_entries text) = finditer_entries 0 text"
  by (simp add: parse_entries_def Let_def case_prod_unfold comp_def)

lemma parse_entries_nth:
  assumes "i < length (finditer_entries 0 text)"
  shows "e_span (parse_entries text ! i) = finditer_entries 0 text ! i
     \<and> e_raw (parse_entries text ! i)
         = take (snd (finditer_entries 0 text ! i) - fst (finditer_entries 0 text ! i))
             (drop (fst (finditer_entries 0 text ! i)) text)"
  using assms by (simp add: parse_entries_def Let_def case_prod_unfold)

section \<open>The applier: patches do not interfere\<close>

text \<open>
  C1, as amended. Take any text and any list of pending patches, in any order, whose
  spans are distinct spans of its records, each with fields that are not empty, and
  such that no field line to insert holds an \<^verbatim>\<open>@\<close> or a newline directly followed by a
  closing brace. The applier sorts the replacements by descending start and splices
  each merged text at its original span; a scan of the result finds as many records as
  a scan of the text, every record with no patch has its exact original text, and every
  record with a patch has its merged text. The merged text of the thumbnail fetcher is
  the one of the enricher for a single field, so this holds for both scripts.
\<close>

theorem patches_do_not_interfere:
  assumes "distinct (map fst ps)"
    and "set (map fst ps) \<subseteq> set (map e_span (parse_entries text))"
    and "\<forall>(sp, fs) \<in> set ps. fs \<noteq> []
          \<and> (\<forall>(name, v) \<in> set fs. CHR ''@'' \<notin> set (field_line name v)
                \<and> \<not> sublist [nl, CHR ''}''] (field_line name v))"
    and "replacements
          = map (\<lambda>(sp, fs). (sp, inject_fields (take (snd sp - fst sp) (drop (fst sp) text)) fs)) ps"
    and "final = apply_replacements text replacements"
  shows "length (parse_entries final) = length (parse_entries text)
     \<and> (\<forall>i < length (parse_entries text).
           e_raw (parse_entries final ! i)
             = (case map_of replacements (e_span (parse_entries text ! i)) of
                  None \<Rightarrow> e_raw (parse_entries text ! i)
                | Some new_raw \<Rightarrow> new_raw))
     \<and> inject_field raw name v = inject_fields raw [(name, v)]"
proof -
  let ?spans = "finditer_entries 0 text" and ?m = "map_of replacements"
  have keys: "map fst replacements = map fst ps"
    unfolding assms(4) by (simp add: case_prod_unfold comp_def)
  have d: "distinct (map fst replacements)" using assms(1) keys by simp
  have sub: "set (map fst replacements) \<subseteq> set ?spans"
    using assms(2) keys by (simp add: parse_entries_spans)
  have fin: "final = patch_scan ?m 0 text"
    unfolding assms(5) by (rule apply_replacements_patch_scan [OF d sub])
  have good: "\<forall>sp \<in> set ?spans. \<forall>r. ?m sp = Some r \<longrightarrow> whole r"
  proof (intro ballI allI impI)
    fix sp r assume sp: "sp \<in> set ?spans" and r: "?m sp = Some r"
    obtain s e where se: "sp = (s, e)" by (cases sp)
    from r have "(sp, r) \<in> set replacements" by (rule map_of_SomeD)
    then obtain fs where fs: "(sp, fs) \<in> set ps"
      and rf: "r = inject_fields (take (e - s) (drop s text)) fs"
      unfolding assms(4) using se by auto
    from assms(3) fs have ne: "fs \<noteq> []"
      and at: "\<forall>(name, v) \<in> set fs. CHR ''@'' \<notin> set (field_line name v)"
      and nc: "\<forall>(name, v) \<in> set fs. no_close (field_line name v)"
      by (auto simp: no_close_iff)
    have m: "match_entry (drop s text) = Some (e - s)"
      using finditer_entries_spans [of s e 0 "text"] sp se by simp
    show "whole r"
      unfolding whole_def rf using merged_record_matches [OF m ne at nc] by blast
  qed
  have raws: "map e_raw (parse_entries final)
      = map (\<lambda>(s, e). case ?m (s, e) of Some new_raw \<Rightarrow> new_raw | None \<Rightarrow> take (e - s) (drop (s - 0) text))
          ?spans"
    unfolding entry_texts_parse fin by (rule rescan_patched [OF good])
  have len: "length (parse_entries final) = length ?spans"
    using arg_cong [OF raws, of length] by simp
  have len0: "length (parse_entries text) = length ?spans"
    using arg_cong [OF parse_entries_spans [of "text"], of length] by simp
  have nth: "e_raw (parse_entries final ! i)
             = (case ?m (e_span (parse_entries text ! i)) of
                  None \<Rightarrow> e_raw (parse_entries text ! i)
                | Some new_raw \<Rightarrow> new_raw)" if i: "i < length (parse_entries text)" for i
  proof -
    have il: "i < length ?spans" using i len0 by simp
    obtain s e where se: "?spans ! i = (s, e)" by (cases "?spans ! i")
    have "e_raw (parse_entries final ! i) = map e_raw (parse_entries final) ! i"
      using il len by simp
    also have "\<dots> = (case ?m (s, e) of Some new_raw \<Rightarrow> new_raw | None \<Rightarrow> take (e - s) (drop (s - 0) text))"
      unfolding raws using il se by simp
    finally show ?thesis using parse_entries_nth [OF il] se by (simp split: option.splits)
  qed
  show ?thesis using len len0 nth inject_field_single by simp
qed

theorem patches_do_not_interfere_witness:
  "length (parse_entries (apply_replacements (''@misc{a,'' @ [nl] @ ''  title = {A},'' @ [nl, CHR ''}'', nl] @ ''@misc{b,'' @ [nl] @ ''  title = {B}'' @ [nl, CHR ''}'', nl])
        (map (\<lambda>(sp, fs). (sp, inject_fields (take (snd sp - fst sp) (drop (fst sp) (''@misc{a,'' @ [nl] @ ''  title = {A},'' @ [nl, CHR ''}'', nl] @ ''@misc{b,'' @ [nl] @ ''  title = {B}'' @ [nl, CHR ''}'', nl]))) fs)) [((26, 50), [(''doi'', ''10.1/x'')])]))) = 2
   \<and> e_raw (parse_entries (apply_replacements (''@misc{a,'' @ [nl] @ ''  title = {A},'' @ [nl, CHR ''}'', nl] @ ''@misc{b,'' @ [nl] @ ''  title = {B}'' @ [nl, CHR ''}'', nl])
        (map (\<lambda>(sp, fs). (sp, inject_fields (take (snd sp - fst sp) (drop (fst sp) (''@misc{a,'' @ [nl] @ ''  title = {A},'' @ [nl, CHR ''}'', nl] @ ''@misc{b,'' @ [nl] @ ''  title = {B}'' @ [nl, CHR ''}'', nl]))) fs)) [((26, 50), [(''doi'', ''10.1/x'')])])) ! 0) = ''@misc{a,'' @ [nl] @ ''  title = {A},'' @ [nl, CHR ''}'']
   \<and> e_raw (parse_entries (apply_replacements (''@misc{a,'' @ [nl] @ ''  title = {A},'' @ [nl, CHR ''}'', nl] @ ''@misc{b,'' @ [nl] @ ''  title = {B}'' @ [nl, CHR ''}'', nl])
        (map (\<lambda>(sp, fs). (sp, inject_fields (take (snd sp - fst sp) (drop (fst sp) (''@misc{a,'' @ [nl] @ ''  title = {A},'' @ [nl, CHR ''}'', nl] @ ''@misc{b,'' @ [nl] @ ''  title = {B}'' @ [nl, CHR ''}'', nl]))) fs)) [((26, 50), [(''doi'', ''10.1/x'')])])) ! 1)
       = ''@misc{b,'' @ [nl] @ ''  title = {B},'' @ [nl] @ ''  doi         = {10.1/x},'' @ [nl] @ [nl, CHR ''}'']"
proof -
  let ?t = "(''@misc{a,'' @ [nl] @ ''  title = {A},'' @ [nl, CHR ''}'', nl] @ ''@misc{b,'' @ [nl] @ ''  title = {B}'' @ [nl, CHR ''}'', nl])"
  let ?ps = "[((26, 50), [(''doi'', ''10.1/x'')])]"
  let ?reps = "(map (\<lambda>(sp, fs). (sp, inject_fields (take (snd sp - fst sp) (drop (fst sp) (''@misc{a,'' @ [nl] @ ''  title = {A},'' @ [nl, CHR ''}'', nl] @ ''@misc{b,'' @ [nl] @ ''  title = {B}'' @ [nl, CHR ''}'', nl]))) fs)) [((26, 50), [(''doi'', ''10.1/x'')])])"
  have sp: "finditer_entries 0 ?t = [(0, 25), (26, 50)]" by code_simp
  have h1: "distinct (map fst ?ps)" by simp
  have h2: "set (map fst ?ps) \<subseteq> set (map e_span (parse_entries ?t))"
    unfolding parse_entries_spans sp by simp
  have fl: "CHR ''@'' \<notin> set (field_line ''doi'' ''10.1/x'')"
    "\<not> sublist [nl, CHR ''}''] (field_line ''doi'' ''10.1/x'')" by code_simp+
  have h3: "\<forall>(sp, fs) \<in> set ?ps. fs \<noteq> []
          \<and> (\<forall>(name, v) \<in> set fs. CHR ''@'' \<notin> set (field_line name v)
                \<and> \<not> sublist [nl, CHR ''}''] (field_line name v))"
    using fl by simp
  note T = patches_do_not_interfere [OF h1 h2 h3 refl refl]
  have l0: "length (parse_entries ?t) = 2"
    using arg_cong [OF parse_entries_spans [of ?t], of length] unfolding sp by simp
  have i0: "0 < length (parse_entries ?t)" and i1: "1 < length (parse_entries ?t)"
    unfolding l0 by simp_all
  have len: "length (parse_entries (apply_replacements (''@misc{a,'' @ [nl] @ ''  title = {A},'' @ [nl, CHR ''}'', nl] @ ''@misc{b,'' @ [nl] @ ''  title = {B}'' @ [nl, CHR ''}'', nl])
        (map (\<lambda>(sp, fs). (sp, inject_fields (take (snd sp - fst sp) (drop (fst sp) (''@misc{a,'' @ [nl] @ ''  title = {A},'' @ [nl, CHR ''}'', nl] @ ''@misc{b,'' @ [nl] @ ''  title = {B}'' @ [nl, CHR ''}'', nl]))) fs)) [((26, 50), [(''doi'', ''10.1/x'')])]))) = 2"
    using T [THEN conjunct1] unfolding l0 .
  have n0: "e_span (parse_entries ?t ! 0) = (0, 25)" "e_raw (parse_entries ?t ! 0) = take (25 - 0) (drop 0 ?t)"
    using parse_entries_nth [of 0 ?t] unfolding sp by simp_all
  have n1: "e_span (parse_entries ?t ! 1) = (26, 50)"
    using parse_entries_nth [of 1 ?t] unfolding sp by simp
  have m0: "map_of ?reps (0, 25) = None" by simp
  have m1: "map_of ?reps (26, 50) = Some (inject_fields (take (50 - 26) (drop 26 ?t)) [(''doi'', ''10.1/x'')])"
    by simp
  have r0: "take (25 - 0) (drop 0 ?t) = ''@misc{a,'' @ [nl] @ ''  title = {A},'' @ [nl, CHR ''}'']" by simp
  have r1: "inject_fields (take (50 - 26) (drop 26 ?t)) [(''doi'', ''10.1/x'')]
      = ''@misc{b,'' @ [nl] @ ''  title = {B},'' @ [nl] @ ''  doi         = {10.1/x},'' @ [nl] @ [nl, CHR ''}'']"
    by code_simp
  have a: "e_raw (parse_entries (apply_replacements (''@misc{a,'' @ [nl] @ ''  title = {A},'' @ [nl, CHR ''}'', nl] @ ''@misc{b,'' @ [nl] @ ''  title = {B}'' @ [nl, CHR ''}'', nl])
        (map (\<lambda>(sp, fs). (sp, inject_fields (take (snd sp - fst sp) (drop (fst sp) (''@misc{a,'' @ [nl] @ ''  title = {A},'' @ [nl, CHR ''}'', nl] @ ''@misc{b,'' @ [nl] @ ''  title = {B}'' @ [nl, CHR ''}'', nl]))) fs)) [((26, 50), [(''doi'', ''10.1/x'')])])) ! 0) = ''@misc{a,'' @ [nl] @ ''  title = {A},'' @ [nl, CHR ''}'']"
    by (rule T [THEN conjunct2, THEN conjunct1, rule_format, OF i0, unfolded n0 m0 option.case r0])
  have b: "e_raw (parse_entries (apply_replacements (''@misc{a,'' @ [nl] @ ''  title = {A},'' @ [nl, CHR ''}'', nl] @ ''@misc{b,'' @ [nl] @ ''  title = {B}'' @ [nl, CHR ''}'', nl])
        (map (\<lambda>(sp, fs). (sp, inject_fields (take (snd sp - fst sp) (drop (fst sp) (''@misc{a,'' @ [nl] @ ''  title = {A},'' @ [nl, CHR ''}'', nl] @ ''@misc{b,'' @ [nl] @ ''  title = {B}'' @ [nl, CHR ''}'', nl]))) fs)) [((26, 50), [(''doi'', ''10.1/x'')])])) ! 1)
       = ''@misc{b,'' @ [nl] @ ''  title = {B},'' @ [nl] @ ''  doi         = {10.1/x},'' @ [nl] @ [nl, CHR ''}'']"
    by (rule T [THEN conjunct2, THEN conjunct1, rule_format, OF i1, unfolded n1 m1 option.case r1])
  show ?thesis using len a b by (intro conjI)
qed

text \<open>
  C1 as stated fails: the patch below gives the only record a link that holds an
  \<^verbatim>\<open>@\<close>; the entry pattern admits no \<^verbatim>\<open>@\<close> inside a record, and a scan of the result
  finds no record where the text had one.
\<close>

theorem patch_with_at_sign_loses_record_counterexample:
  "length (parse_entries (''@misc{k,'' @ [nl] @ ''  title = {T},'' @ [nl, CHR ''}''])) = 1
   \<and> length (parse_entries (apply_replacements (''@misc{k,'' @ [nl] @ ''  title = {T},'' @ [nl, CHR ''}''])
        [((0, 25), inject_fields (''@misc{k,'' @ [nl] @ ''  title = {T},'' @ [nl, CHR ''}''])
                     [(''html'', ''https://x.org/@u'')])])) = 0"
  by (intro conjI; code_simp)

end
